theory Spec2Isabelle
  imports Main "HOL-Library.Sublist"
begin

section \<open>Data model (canvases/diff/types.ts)\<close>

text \<open>
  The parsed structures of the diff canvas. A JavaScript string is modelled as a
  \<^typ>\<open>string\<close>, one \<^typ>\<open>char\<close> per code unit; every character the parser
  compares against is ASCII. Line numbers are JavaScript numbers that only ever hold
  non-negative integers; they are modelled as \<^typ>\<open>nat\<close>, which agrees with the
  double arithmetic of the source for every value below \<open>2 ^ 53\<close>.

  An optional field (\<open>oldLineNumber?\<close>) is an \<open>option\<close>, and a field that holds
  \<open>undefined\<close> counts as absent, \<open>None\<close>. The field \<open>type\<close> of a
  change is declared as \<open>ChangeType\<close>, but \<open>parseHunk\<close> can leave its local variable
  unassigned, so at run time the field may hold \<open>undefined\<close>: it is an \<open>option\<close> too.
\<close>

datatype ChangeType = Add | Delete | Normal

datatype FileStatus = Added | Deleted | Modified | Renamed | Copied

record WordChange =
  wtype :: ChangeType
  wvalue :: string

record DiffChange =
  type :: "ChangeType option"
  content :: string
  oldLineNumber :: "nat option"
  newLineNumber :: "nat option"
  wordDiff :: "WordChange list option"

record DiffHunk =
  header :: string
  oldStart :: nat
  oldLines :: nat
  newStart :: nat
  newLines :: nat
  changes :: "DiffChange list"
  isExpanded :: bool

record DiffFile =
  oldPath :: string
  newPath :: string
  hunks :: "DiffHunk list"
  status :: FileStatus
  fileIsExpanded :: bool

section \<open>JavaScript primitives used by the parser\<close>

text \<open>
  Reading \<open>xs[i]\<close> past the end of an array gives \<open>undefined\<close>, and every such read
  in the parser is followed at once by a method call on the value, which then throws a
  \<open>TypeError\<close>. The read and the call together are \<open>at\<close>.
\<close>

datatype error = TypeError

definition at :: "'a list \<Rightarrow> nat \<Rightarrow> error + 'a" where
  "at xs i = (if i < length xs then Inr (xs ! i) else Inl TypeError)"

definition startsWith :: "string \<Rightarrow> string \<Rightarrow> bool" where
  "startsWith s p = (take (length p) s = p)"

text \<open>\<open>s.includes(p)\<close>: \<open>p\<close> occurs somewhere in \<open>s\<close>.\<close>

fun includes_str :: "string \<Rightarrow> string \<Rightarrow> bool" where
  "includes_str [] p = (p = [])"
| "includes_str (c # cs) p = (startsWith (c # cs) p \<or> includes_str cs p)"

text \<open>\<open>s.split("\n")\<close>: the pieces between line feeds; never the empty array.\<close>

fun splitFrom :: "string \<Rightarrow> string \<Rightarrow> string list" where
  "splitFrom cur [] = [cur]"
| "splitFrom cur (c # cs) =
     (if c = CHR 0x0A then cur # splitFrom [] cs else splitFrom (cur @ [c]) cs)"

definition split :: "string \<Rightarrow> string list" where
  "split s = splitFrom [] s"

text \<open>
  The regular-expression classes \<open>\d\<close>, \<open>\w\<close> and the complement of \<open>.\<close>. Of
  the four line terminators that the dot refuses, line feed and carriage return are
  values of \<^typ>\<open>char\<close>; U+2028 and U+2029 lie outside it.
\<close>

definition isDigit :: "char \<Rightarrow> bool" where
  "isDigit c = (48 \<le> (of_char c :: nat) \<and> (of_char c :: nat) \<le> 57)"

definition isWordChar :: "char \<Rightarrow> bool" where
  "isWordChar c =
     (let n = (of_char c :: nat)
      in (48 \<le> n \<and> n \<le> 57) \<or> (65 \<le> n \<and> n \<le> 90) \<or> n = 95 \<or> (97 \<le> n \<and> n \<le> 122))"

definition isLineTerminator :: "char \<Rightarrow> bool" where
  "isLineTerminator c = (c = CHR 0x0A \<or> c = CHR 0x0D)"

text \<open>\<open>parseInt(ds, 10)\<close> on a non-empty string of decimal digits.\<close>

definition digitVal :: "char \<Rightarrow> nat" where
  "digitVal c = of_char c - 48"

definition parseInt :: "string \<Rightarrow> nat" where
  "parseInt ds = foldl (\<lambda>n c. 10 * n + digitVal c) 0 ds"

section \<open>The two header patterns\<close>

text \<open>
  \<open>/^diff --git a\/(.+?) b\/(.+)$/\<close>. After the literal prefix the lazy group grows
  one character at a time; at each length the rest must be \<open>" b/"\<close> followed by a
  non-empty remainder up to the end of the line. The dot matches no line terminator.
\<close>

fun lazyPath :: "string \<Rightarrow> string \<Rightarrow> (string \<times> string) option" where
  "lazyPath g [] = None"
| "lazyPath g (c # cs) =
     (if g \<noteq> [] \<and> startsWith (c # cs) '' b/'' \<and> drop 3 (c # cs) \<noteq> []
         \<and> \<not> (\<exists>x \<in> set (drop 3 (c # cs)). isLineTerminator x)
      then Some (g, drop 3 (c # cs))
      else if isLineTerminator c then None
      else lazyPath (g @ [c]) cs)"

definition matchGitLine :: "string \<Rightarrow> (string \<times> string) option" where
  "matchGitLine line =
     (if startsWith line ''diff --git a/'' then lazyPath [] (drop 13 line) else None)"

text \<open>
  \<open>/^@@ -(\d+)(?:,(\d+))? \+(\d+)(?:,(\d+))? @@(.*)$/\<close>. Each \<open>\d+\<close> takes every
  digit there is (giving one back can never help, the next character would be a digit);
  \<open>optCount\<close> is the optional group \<open>(?:,(\d+))?\<close>. The result holds the five groups.
\<close>

definition optCount :: "string \<Rightarrow> string option \<times> string" where
  "optCount s =
     (case s of
        [] \<Rightarrow> (None, s)
      | c # r \<Rightarrow>
          if c = CHR '','' \<and> takeWhile isDigit r \<noteq> []
          then (Some (takeWhile isDigit r), dropWhile isDigit r)
          else (None, s))"

definition matchHunkHeader ::
  "string \<Rightarrow> (string \<times> string option \<times> string \<times> string option \<times> string) option" where
  "matchHunkHeader line =
     (if \<not> startsWith line ''@@ -'' then None
      else
        let r0 = drop 4 line; m1 = takeWhile isDigit r0; r1 = dropWhile isDigit r0
        in if m1 = [] then None
           else
             let (m2, r2) = optCount r1
             in if \<not> startsWith r2 '' +'' then None
                else
                  let r3 = drop 2 r2; m3 = takeWhile isDigit r3; r4 = dropWhile isDigit r3
                  in if m3 = [] then None
                     else
                       let (m4, r5) = optCount r4
                       in if \<not> startsWith r5 '' @@'' then None
                          else
                            let m5 = drop 3 r5
                            in if \<exists>x \<in> set m5. isLineTerminator x then None
                               else Some (m1, m2, m3, m4, m5))"

section \<open>parseHunk\<close>

text \<open>
  The \<open>switch\<close> of the hunk loop on one line: the change it builds, if any, and the two
  counters afterwards. \<open>None\<close> is the \<open>continue\<close> of the backslash case. In the
  \<open>default\<close> case the \<open>break\<close> of a non-empty line leaves the \<open>switch\<close> only, so the
  statements after it still push a change, whose \<open>type\<close> and line numbers were never
  assigned.
\<close>

definition hunkLine :: "string \<Rightarrow> nat \<Rightarrow> nat \<Rightarrow> DiffChange option \<times> nat \<times> nat" where
  "hunkLine line currentOldLine currentNewLine =
     (let content = drop 1 line
      in case line of
           [] \<Rightarrow>
             (Some \<lparr>type = Some Normal, content = content,
                    oldLineNumber = Some currentOldLine, newLineNumber = Some currentNewLine,
                    wordDiff = None\<rparr>,
              currentOldLine + 1, currentNewLine + 1)
         | prefx # _ \<Rightarrow>
             if prefx = CHR ''+'' then
               (Some \<lparr>type = Some Add, content = content,
                      oldLineNumber = None, newLineNumber = Some currentNewLine,
                      wordDiff = None\<rparr>,
                currentOldLine, currentNewLine + 1)
             else if prefx = CHR ''-'' then
               (Some \<lparr>type = Some Delete, content = content,
                      oldLineNumber = Some currentOldLine, newLineNumber = None,
                      wordDiff = None\<rparr>,
                currentOldLine + 1, currentNewLine)
             else if prefx = CHR '' '' then
               (Some \<lparr>type = Some Normal, content = content,
                      oldLineNumber = Some currentOldLine, newLineNumber = Some currentNewLine,
                      wordDiff = None\<rparr>,
                currentOldLine + 1, currentNewLine + 1)
             else if prefx = CHR 0x5C then (None, currentOldLine, currentNewLine)
             else
               (Some \<lparr>type = None, content = content,
                      oldLineNumber = None, newLineNumber = None, wordDiff = None\<rparr>,
                currentOldLine, currentNewLine))"

function parseHunkLoop ::
  "string list \<Rightarrow> nat \<Rightarrow> nat \<Rightarrow> nat \<Rightarrow> DiffChange list \<Rightarrow> error + (DiffChange list \<times> nat)" where
  "parseHunkLoop lines i currentOldLine currentNewLine chs =
     (if \<not> i < length lines then Inr (chs, i)
      else
        case at lines i of
          Inl e \<Rightarrow> Inl e
        | Inr line \<Rightarrow>
            if startsWith line ''@@'' \<or> startsWith line ''diff --git'' then Inr (chs, i)
            else if line = [] \<and> i = length lines - 1 then Inr (chs, i)
            else
              case hunkLine line currentOldLine currentNewLine of
                (None, old', new') \<Rightarrow> parseHunkLoop lines (i + 1) old' new' chs
              | (Some change, old', new') \<Rightarrow>
                  parseHunkLoop lines (i + 1) old' new' (chs @ [change]))"
  by pat_completeness auto
termination
  by (relation "measure (\<lambda>(lines, i, _). length lines - i)") auto

definition parseHunk :: "string list \<Rightarrow> nat \<Rightarrow> bool \<Rightarrow> error + (DiffHunk \<times> nat) option" where
  "parseHunk lines startIndex expandedByDefault =
     (case at lines startIndex of
        Inl e \<Rightarrow> Inl e
      | Inr headerLine \<Rightarrow>
          (case matchHunkHeader headerLine of
             None \<Rightarrow> Inr None
           | Some (m1, m2, m3, m4, m5) \<Rightarrow>
               let oStart = parseInt m1;
                   oLines = (case m2 of Some d \<Rightarrow> parseInt d | None \<Rightarrow> 1);
                   nStart = parseInt m3;
                   nLines = (case m4 of Some d \<Rightarrow> parseInt d | None \<Rightarrow> 1)
               in case parseHunkLoop lines (startIndex + 1) oStart nStart [] of
                    Inl e \<Rightarrow> Inl e
                  | Inr (chs, i) \<Rightarrow>
                      Inr (Some (\<lparr>header = headerLine, oldStart = oStart, oldLines = oLines,
                                  newStart = nStart, newLines = nLines, changes = chs,
                                  isExpanded = expandedByDefault\<rparr>, i))))"

lemma at_in_range [simp]: "i < length xs \<Longrightarrow> at xs i = Inr (xs ! i)"
  by (simp add: at_def)

lemma at_out_of_range [simp]: "\<not> i < length xs \<Longrightarrow> at xs i = Inl TypeError"
  by (simp add: at_def)

declare parseHunkLoop.simps [simp del]

definition hunkStop :: "string list \<Rightarrow> nat \<Rightarrow> bool" where
  "hunkStop lines i =
     (startsWith (lines ! i) ''@@'' \<or> startsWith (lines ! i) ''diff --git''
      \<or> (lines ! i = [] \<and> i = length lines - 1))"

lemma parseHunkLoop_end:
  "\<not> i < length lines \<Longrightarrow> parseHunkLoop lines i co cn chs = Inr (chs, i)"
  by (simp add: parseHunkLoop.simps)

lemma parseHunkLoop_stop:
  "i < length lines \<Longrightarrow> hunkStop lines i \<Longrightarrow> parseHunkLoop lines i co cn chs = Inr (chs, i)"
  by (auto simp: parseHunkLoop.simps[of lines i] hunkStop_def)

lemma parseHunkLoop_step:
  "i < length lines \<Longrightarrow> \<not> hunkStop lines i \<Longrightarrow> hunkLine (lines ! i) co cn = (c, co', cn') \<Longrightarrow>
   parseHunkLoop lines i co cn chs =
     parseHunkLoop lines (Suc i) co' cn' (chs @ (case c of None \<Rightarrow> [] | Some x \<Rightarrow> [x]))"
  by (auto simp: parseHunkLoop.simps[of lines i] hunkStop_def split: option.splits)

lemma parseHunkLoop_index:
  "parseHunkLoop lines i co cn chs = Inr (chs', j) \<Longrightarrow> i \<le> j"
proof (induction "length lines - i" arbitrary: i co cn chs)
  case 0
  then show ?case by (simp add: parseHunkLoop_end)
next
  case (Suc n)
  then have lt: "i < length lines" by simp
  show ?case
  proof (cases "hunkStop lines i")
    case True
    with lt Suc.prems show ?thesis by (simp add: parseHunkLoop_stop)
  next
    case False
    obtain c co' cn' where h: "hunkLine (lines ! i) co cn = (c, co', cn')"
      by (cases "hunkLine (lines ! i) co cn") auto
    from Suc.hyps(2) have "n = length lines - Suc i" by simp
    from Suc.hyps(1)[OF this] Suc.prems parseHunkLoop_step[OF lt False h]
    have "Suc i \<le> j" by simp
    then show ?thesis by simp
  qed
qed

lemma parseHunk_index:
  "parseHunk lines i e = Inr (Some (h, j)) \<Longrightarrow> i < j"
  by (auto simp: parseHunk_def Let_def split: sum.splits option.splits prod.splits
           dest!: parseHunkLoop_index)

section \<open>parseFile\<close>

text \<open>
  The first loop of \<open>parseFile\<close>: the metadata lines after the \<open>diff --git\<close> line.
  Every status-setting line assigns \<open>status\<close>; a line starting with \<open>@@\<close> leaves the
  loop where it stands, a line starting with \<open>Binary files\<close> leaves it one line further.
\<close>

function parseFileMeta :: "string list \<Rightarrow> nat \<Rightarrow> FileStatus \<Rightarrow> error + (FileStatus \<times> nat)" where
  "parseFileMeta lines i st =
     (if \<not> i < length lines then Inr (st, i)
      else
        case at lines i of
          Inl e \<Rightarrow> Inl e
        | Inr line \<Rightarrow>
            if startsWith line ''diff --git'' then Inr (st, i)
            else if startsWith line ''new file mode'' then parseFileMeta lines (i + 1) Added
            else if startsWith line ''deleted file mode'' then parseFileMeta lines (i + 1) Deleted
            else if startsWith line ''rename from'' then parseFileMeta lines (i + 1) Renamed
            else if startsWith line ''copy from'' then parseFileMeta lines (i + 1) Copied
            else if startsWith line ''index '' then parseFileMeta lines (i + 1) st
            else if startsWith line ''--- '' then parseFileMeta lines (i + 1) st
            else if startsWith line ''+++ '' then parseFileMeta lines (i + 1) st
            else if startsWith line ''@@'' then Inr (st, i)
            else if startsWith line ''Binary files'' then Inr (st, i + 1)
            else if startsWith line ''similarity index'' \<or> startsWith line ''rename to''
                    \<or> startsWith line ''copy to''
            then parseFileMeta lines (i + 1) st
            else parseFileMeta lines (i + 1) st)"
  by pat_completeness auto
termination
  by (relation "measure (\<lambda>(lines, i, _). length lines - i)") auto

declare parseFileMeta.simps [simp del]

text \<open>The second loop of \<open>parseFile\<close>: every line starting with \<open>@@\<close> is handed to \<open>parseHunk\<close>.\<close>

function parseFileHunks ::
  "string list \<Rightarrow> nat \<Rightarrow> DiffHunk list \<Rightarrow> bool \<Rightarrow> error + (DiffHunk list \<times> nat)" where
  "parseFileHunks lines i hs expandedByDefault =
     (if \<not> i < length lines then Inr (hs, i)
      else
        case at lines i of
          Inl e \<Rightarrow> Inl e
        | Inr line \<Rightarrow>
            if startsWith line ''diff --git'' then Inr (hs, i)
            else if startsWith line ''@@'' then
              (case parseHunk lines i expandedByDefault of
                 Inl e \<Rightarrow> Inl e
               | Inr None \<Rightarrow> parseFileHunks lines (i + 1) hs expandedByDefault
               | Inr (Some (hunk, nextIndex)) \<Rightarrow>
                   parseFileHunks lines nextIndex (hs @ [hunk]) expandedByDefault)
            else parseFileHunks lines (i + 1) hs expandedByDefault)"
  by pat_completeness auto
termination
proof (relation "measure (\<lambda>(lines, i, _). length lines - i)")
  fix lines :: "string list" and i :: nat and hs :: "DiffHunk list" and expandedByDefault x2 x2a x2b x y
  assume "\<not> \<not> i < length lines" and "parseHunk lines i expandedByDefault = Inr x2a"
    and "x2a = Some x2b" and "(x, y) = x2b"
  then have "i < y" by (auto dest: parseHunk_index)
  with \<open>\<not> \<not> i < length lines\<close>
  show "((lines, y, hs @ [x], expandedByDefault), lines, i, hs, expandedByDefault)
        \<in> measure (\<lambda>(lines, i, _). length lines - i)"
    by simp
qed auto

declare parseFileHunks.simps [simp del]

definition parseFile :: "string list \<Rightarrow> nat \<Rightarrow> bool \<Rightarrow> error + (DiffFile \<times> nat) option" where
  "parseFile lines startIndex expandedByDefault =
     (case at lines startIndex of
        Inl e \<Rightarrow> Inl e
      | Inr gitLine \<Rightarrow>
          (case matchGitLine gitLine of
             None \<Rightarrow> Inr None
           | Some (oPath, nPath) \<Rightarrow>
               (case parseFileMeta lines (startIndex + 1) Modified of
                  Inl e \<Rightarrow> Inl e
                | Inr (st, i) \<Rightarrow>
                    (case parseFileHunks lines i [] expandedByDefault of
                       Inl e \<Rightarrow> Inl e
                     | Inr (hs, i') \<Rightarrow>
                         Inr (Some (\<lparr>oldPath = oPath, newPath = nPath, hunks = hs,
                                     status = st, fileIsExpanded = expandedByDefault\<rparr>, i'))))))"

lemma parseFileMeta_index:
  "parseFileMeta lines i st = Inr (st', j) \<Longrightarrow> i \<le> j"
proof (induction "length lines - i" arbitrary: i st)
  case 0
  then show ?case by (simp add: parseFileMeta.simps)
next
  case (Suc n)
  then have lt: "i < length lines" by simp
  from Suc.hyps(2) have n: "n = length lines - Suc i" by simp
  have "\<And>s. parseFileMeta lines (Suc i) s = Inr (st', j) \<Longrightarrow> i \<le> j"
    using Suc.hyps(1)[OF n] by fastforce
  with lt Suc.prems show ?case
    by (subst (asm) parseFileMeta.simps) (simp split: if_splits)
qed

lemma parseFileHunks_index:
  "parseFileHunks lines i hs e = Inr (hs', j) \<Longrightarrow> i \<le> j"
proof (induction "length lines - i" arbitrary: i hs rule: less_induct)
  case less
  show ?case
  proof (cases "i < length lines")
    case False
    with less.prems show ?thesis by (simp add: parseFileHunks.simps)
  next
    case True
    have step: "\<And>k hs2. i < k \<Longrightarrow> parseFileHunks lines k hs2 e = Inr (hs', j) \<Longrightarrow> i \<le> j"
    proof -
      fix k hs2 assume "i < k" and r: "parseFileHunks lines k hs2 e = Inr (hs', j)"
      with True have "length lines - k < length lines - i" by simp
      from less.hyps[OF this r] \<open>i < k\<close> show "i \<le> j" by simp
    qed
    from True less.prems show ?thesis
      by (subst (asm) parseFileHunks.simps)
         (auto split: if_splits sum.splits option.splits dest: parseHunk_index step[rotated])
  qed
qed

lemma parseFile_index:
  "parseFile lines i e = Inr (Some (f, j)) \<Longrightarrow> i < j"
  by (auto simp: parseFile_def split: sum.splits option.splits prod.splits
           dest!: parseFileMeta_index parseFileHunks_index)

section \<open>parseGitDiff\<close>

function parseGitDiffLoop ::
  "string list \<Rightarrow> nat \<Rightarrow> DiffFile list \<Rightarrow> bool \<Rightarrow> error + DiffFile list" where
  "parseGitDiffLoop lines i files expandedByDefault =
     (if \<not> i < length lines then Inr files
      else
        case at lines i of
          Inl e \<Rightarrow> Inl e
        | Inr line \<Rightarrow>
            if startsWith line ''diff --git'' then
              (case parseFile lines i expandedByDefault of
                 Inl e \<Rightarrow> Inl e
               | Inr None \<Rightarrow> parseGitDiffLoop lines (i + 1) files expandedByDefault
               | Inr (Some (file, nextIndex)) \<Rightarrow>
                   parseGitDiffLoop lines nextIndex (files @ [file]) expandedByDefault)
            else parseGitDiffLoop lines (i + 1) files expandedByDefault)"
  by pat_completeness auto
termination
proof (relation "measure (\<lambda>(lines, i, _). length lines - i)")
  fix lines :: "string list" and i :: nat and files :: "DiffFile list" and expandedByDefault x2 x2a x2b x y
  assume "\<not> \<not> i < length lines" and "parseFile lines i expandedByDefault = Inr x2a"
    and "x2a = Some x2b" and "(x, y) = x2b"
  then have "i < y" by (auto dest: parseFile_index)
  with \<open>\<not> \<not> i < length lines\<close>
  show "((lines, y, files @ [x], expandedByDefault), lines, i, files, expandedByDefault)
        \<in> measure (\<lambda>(lines, i, _). length lines - i)"
    by simp
qed auto

declare parseGitDiffLoop.simps [simp del]

definition parseGitDiff :: "string \<Rightarrow> bool \<Rightarrow> error + DiffFile list" where
  "parseGitDiff diffOutput expandedByDefault =
     parseGitDiffLoop (split diffOutput) 0 [] expandedByDefault"

section \<open>tokenize\<close>

text \<open>
  The loop of \<open>tokenize\<close> over the characters of the line, with its three variables.
  A character of more than one code unit is outside \<open>\w\<close> in each of its units, so
  walking code units cuts the line at the same places as walking code points.
\<close>

fun tokenizeLoop :: "string \<Rightarrow> string list \<Rightarrow> string \<Rightarrow> bool \<Rightarrow> string list" where
  "tokenizeLoop [] tokens current inWord =
     (if current \<noteq> [] then tokens @ [current] else tokens)"
| "tokenizeLoop (ch # rest) tokens current inWord =
     (if isWordChar ch \<noteq> inWord \<and> current \<noteq> []
      then tokenizeLoop rest (tokens @ [current]) [ch] (isWordChar ch)
      else tokenizeLoop rest tokens (current @ [ch]) (isWordChar ch))"

definition tokenize :: "string \<Rightarrow> string list" where
  "tokenize line = tokenizeLoop line [] [] False"

section \<open>computeLCS\<close>

text \<open>
  The table \<open>dp\<close> is an array of \<open>m + 1\<close> rows of \<open>n + 1\<close> zeros, filled row by row;
  every index the loops read or write lies inside it. The backtracking loop walks from
  \<open>(m, n)\<close> towards the origin and puts each common element in front of \<open>lcs\<close>.
\<close>

definition dpInit :: "nat \<Rightarrow> nat \<Rightarrow> nat list list" where
  "dpInit m n = replicate (m + 1) (replicate (n + 1) 0)"

definition dpCell :: "'a list \<Rightarrow> 'a list \<Rightarrow> nat list list \<Rightarrow> nat \<Rightarrow> nat \<Rightarrow> nat" where
  "dpCell a b dp i j =
     (if a ! (i - 1) = b ! (j - 1) then dp ! (i - 1) ! (j - 1) + 1
      else max (dp ! (i - 1) ! j) (dp ! i ! (j - 1)))"

definition dpFill :: "'a list \<Rightarrow> 'a list \<Rightarrow> nat list list" where
  "dpFill a b =
     fold (\<lambda>i dp. fold (\<lambda>j dp. dp[i := (dp ! i)[j := dpCell a b dp i j]]) [1..<length b + 1] dp)
       [1..<length a + 1] (dpInit (length a) (length b))"

function lcsBacktrack ::
  "'a list \<Rightarrow> 'a list \<Rightarrow> nat list list \<Rightarrow> nat \<Rightarrow> nat \<Rightarrow> 'a list \<Rightarrow> 'a list" where
  "lcsBacktrack a b dp i j lcs =
     (if i > 0 \<and> j > 0 then
        if a ! (i - 1) = b ! (j - 1) then lcsBacktrack a b dp (i - 1) (j - 1) (a ! (i - 1) # lcs)
        else if dp ! (i - 1) ! j > dp ! i ! (j - 1) then lcsBacktrack a b dp (i - 1) j lcs
        else lcsBacktrack a b dp i (j - 1) lcs
      else lcs)"
  by pat_completeness auto
termination
  by (relation "measure (\<lambda>(a, b, dp, i, j, lcs). i + j)") auto

declare lcsBacktrack.simps [simp del]

definition computeLCS :: "'a list \<Rightarrow> 'a list \<Rightarrow> 'a list" where
  "computeLCS a b = lcsBacktrack a b (dpFill a b) (length a) (length b) []"

section \<open>computeLineDiff\<close>

text \<open>
  The two kinds of inner loop of \<open>computeLineDiff\<close>. \<open>emitUntil\<close> walks \<open>ws\<close> from
  \<open>idx\<close> up to the next occurrence of the token \<open>stop\<close>, \<open>emitRest\<close> walks to the end;
  both push a word change of type \<open>t\<close> for each token they pass when \<open>emit\<close> holds
  (\<open>forType\<close> is the side being passed). In the outer loop the source tests
  \<open>lcsIdx < lcs.length\<close> a second time before it pushes the common element; nothing
  has changed either operand since the enclosing test, which is the one kept here.
\<close>

function emitUntil ::
  "string list \<Rightarrow> string \<Rightarrow> bool \<Rightarrow> ChangeType \<Rightarrow> nat \<Rightarrow> WordChange list \<Rightarrow> nat \<times> WordChange list" where
  "emitUntil ws stop emit t idx result =
     (if idx < length ws \<and> ws ! idx \<noteq> stop
      then emitUntil ws stop emit t (idx + 1)
             (if emit then result @ [\<lparr>wtype = t, wvalue = ws ! idx\<rparr>] else result)
      else (idx, result))"
  by pat_completeness auto
termination
  by (relation "measure (\<lambda>(ws, stop, emit, t, idx, result). length ws - idx)") auto

declare emitUntil.simps [simp del]

function emitRest ::
  "string list \<Rightarrow> bool \<Rightarrow> ChangeType \<Rightarrow> nat \<Rightarrow> WordChange list \<Rightarrow> nat \<times> WordChange list" where
  "emitRest ws emit t idx result =
     (if idx < length ws
      then emitRest ws emit t (idx + 1)
             (if emit then result @ [\<lparr>wtype = t, wvalue = ws ! idx\<rparr>] else result)
      else (idx, result))"
  by pat_completeness auto
termination
  by (relation "measure (\<lambda>(ws, emit, t, idx, result). length ws - idx)") auto

declare emitRest.simps [simp del]

lemma emitRest_index: "emitRest ws emit t idx result = (idx', result') \<Longrightarrow> length ws \<le> idx'"
proof (induction "length ws - idx" arbitrary: idx result)
  case 0
  then show ?case by (simp add: emitRest.simps)
next
  case (Suc n)
  then have lt: "idx < length ws" and n: "n = length ws - Suc idx" by simp_all
  from Suc.prems lt Suc.hyps(1)[OF n] show ?case
    by (subst (asm) emitRest.simps) simp
qed

function lineDiffLoop ::
  "string list \<Rightarrow> string list \<Rightarrow> string list \<Rightarrow> ChangeType \<Rightarrow> nat \<Rightarrow> nat \<Rightarrow> nat \<Rightarrow>
   WordChange list \<Rightarrow> WordChange list" where
  "lineDiffLoop oldWords newWords lcs forType oldIdx newIdx lcsIdx result =
     (if oldIdx < length oldWords \<or> newIdx < length newWords then
        if lcsIdx < length lcs then
          (case emitUntil oldWords (lcs ! lcsIdx) (forType = Delete) Delete oldIdx result of
             (oldIdx1, result1) \<Rightarrow>
               (case emitUntil newWords (lcs ! lcsIdx) (forType = Add) Add newIdx result1 of
                  (newIdx1, result2) \<Rightarrow>
                    lineDiffLoop oldWords newWords lcs forType (oldIdx1 + 1) (newIdx1 + 1)
                      (lcsIdx + 1) (result2 @ [\<lparr>wtype = Normal, wvalue = lcs ! lcsIdx\<rparr>])))
        else
          (case emitRest oldWords (forType = Delete) Delete oldIdx result of
             (oldIdx1, result1) \<Rightarrow>
               (case emitRest newWords (forType = Add) Add newIdx result1 of
                  (newIdx1, result2) \<Rightarrow>
                    lineDiffLoop oldWords newWords lcs forType oldIdx1 newIdx1 lcsIdx result2))
      else result)"
  by pat_completeness auto
termination
proof (relation "measure (\<lambda>(oldWords, newWords, lcs, forType, oldIdx, newIdx, lcsIdx, result).
          2 * (length lcs - lcsIdx)
          + (if oldIdx < length oldWords \<or> newIdx < length newWords then 1 else 0))",
       goal_cases)
  case 1
  show ?case by simp
next
  case 2
  then show ?case by auto
next
  case prems: 3
  from prems(3) prems(4) show ?case
    by (auto dest!: emitRest_index [OF sym] simp: prems(1))
qed

declare lineDiffLoop.simps [simp del]

definition computeLineDiff :: "string \<Rightarrow> string \<Rightarrow> ChangeType \<Rightarrow> WordChange list" where
  "computeLineDiff oldLine newLine forType =
     (let oldWords = tokenize oldLine; newWords = tokenize newLine;
          lcs = computeLCS oldWords newWords
      in lineDiffLoop oldWords newWords lcs forType 0 0 0 [])"

section \<open>computeWordDiffs\<close>

text \<open>
  The inner loops of \<open>computeHunkWordDiffs\<close> that collect the consecutive changes of one
  type from index \<open>i\<close> on; the result is the collected array and the index reached.
  Every read \<open>changes[i]\<close> stands behind the test \<open>i < changes.length\<close>.
\<close>

function collect ::
  "ChangeType \<Rightarrow> DiffChange list \<Rightarrow> nat \<Rightarrow> DiffChange list \<Rightarrow> DiffChange list \<times> nat" where
  "collect t chs i acc =
     (if i < length chs \<and> type (chs ! i) = Some t
      then collect t chs (i + 1) (acc @ [chs ! i])
      else (acc, i))"
  by pat_completeness auto
termination
  by (relation "measure (\<lambda>(t, chs, i, acc). length chs - i)") auto

declare collect.simps [simp del]

lemma collect_takeWhile:
  "collect t chs i acc =
     (acc @ takeWhile (\<lambda>c. type c = Some t) (drop i chs),
      i + length (takeWhile (\<lambda>c. type c = Some t) (drop i chs)))"
proof (induction "length chs - i" arbitrary: i acc)
  case 0
  then show ?case by (simp add: collect.simps)
next
  case (Suc n)
  then have lt: "i < length chs" and n: "n = length chs - Suc i" by simp_all
  from lt have d: "drop i chs = chs ! i # drop (Suc i) chs"
    by (simp add: Cons_nth_drop_Suc)
  show ?case
    by (subst collect.simps) (simp add: lt d Suc.hyps(1)[OF n])
qed

lemma collect_progress:
  assumes "i < length chs" and "type (chs ! i) = Some Delete"
    and "(ds, i1) = collect Delete chs i []" and "(as, i2) = collect Add chs i1 []"
  shows "((chs, i2, r'), (chs, i, r)) \<in> measure (\<lambda>(chs, i, result). length chs - i)"
proof -
  from assms(1) have d: "drop i chs = chs ! i # drop (Suc i) chs"
    by (simp add: Cons_nth_drop_Suc)
  from assms(3) d assms(2) have "i < i1" by (simp add: collect_takeWhile)
  moreover from assms(4) have "i1 \<le> i2" by (simp add: collect_takeWhile)
  ultimately show ?thesis using assms(1) by simp
qed

text \<open>
  The two \<open>for\<close> loops over a replacement block: the first \<open>maxPairs\<close> entries of each
  side get a word diff against their partner, the others are pushed as they are.
\<close>

definition pairDeletes :: "DiffChange list \<Rightarrow> DiffChange list \<Rightarrow> nat \<Rightarrow> DiffChange list" where
  "pairDeletes deletes adds maxPairs =
     map (\<lambda>j. if j < maxPairs
              then (deletes ! j)\<lparr>wordDiff :=
                     Some (computeLineDiff (content (deletes ! j)) (content (adds ! j)) Delete)\<rparr>
              else deletes ! j)
       [0..<length deletes]"

definition pairAdds :: "DiffChange list \<Rightarrow> DiffChange list \<Rightarrow> nat \<Rightarrow> DiffChange list" where
  "pairAdds deletes adds maxPairs =
     map (\<lambda>j. if j < maxPairs
              then (adds ! j)\<lparr>wordDiff :=
                     Some (computeLineDiff (content (deletes ! j)) (content (adds ! j)) Add)\<rparr>
              else adds ! j)
       [0..<length adds]"

function hunkWordDiffsLoop :: "DiffChange list \<Rightarrow> nat \<Rightarrow> DiffChange list \<Rightarrow> DiffChange list" where
  "hunkWordDiffsLoop chs i result =
     (if i < length chs then
        if type (chs ! i) = Some Delete then
          (case collect Delete chs i [] of
             (deletes, i1) \<Rightarrow>
               (case collect Add chs i1 [] of
                  (adds, i2) \<Rightarrow>
                    if length deletes > 0 \<and> length adds > 0
                       \<and> length deletes \<le> 5 \<and> length adds \<le> 5
                    then
                      let maxPairs = min (length deletes) (length adds)
                      in hunkWordDiffsLoop chs i2
                           (result @ pairDeletes deletes adds maxPairs
                                   @ pairAdds deletes adds maxPairs)
                    else hunkWordDiffsLoop chs i2 (result @ deletes @ adds)))
        else hunkWordDiffsLoop chs (i + 1) (result @ [chs ! i])
      else result)"
  by pat_completeness auto
termination
  apply (relation "measure (\<lambda>(chs, i, result). length chs - i)")
     apply simp
    apply (erule (3) collect_progress)
   apply (erule (3) collect_progress)
  apply simp
  done

declare hunkWordDiffsLoop.simps [simp del]

definition computeHunkWordDiffs :: "DiffChange list \<Rightarrow> DiffChange list" where
  "computeHunkWordDiffs chs = hunkWordDiffsLoop chs 0 []"

definition computeWordDiffs :: "DiffFile list \<Rightarrow> DiffFile list" where
  "computeWordDiffs files =
     map (\<lambda>file. file\<lparr>hunks :=
            map (\<lambda>hunk. hunk\<lparr>changes := computeHunkWordDiffs (changes hunk)\<rparr>) (hunks file)\<rparr>)
       files"

section \<open>The hunk loop as a scan of the lines it consumes\<close>

text \<open>
  \<open>scanLines\<close> applies the \<open>switch\<close> of the hunk loop to a list of lines in turn,
  threading the two counters; it serves to describe what \<open>parseHunkLoop\<close> returns.
\<close>

fun scanLines :: "string list \<Rightarrow> nat \<Rightarrow> nat \<Rightarrow> DiffChange list" where
  "scanLines [] co cn = []"
| "scanLines (l # ls) co cn =
     (case hunkLine l co cn of
        (None, co', cn') \<Rightarrow> scanLines ls co' cn'
      | (Some c, co', cn') \<Rightarrow> c # scanLines ls co' cn')"

lemma parseHunkLoop_result:
  "\<exists>j. i \<le> j \<and> j \<le> max i (length lines)
       \<and> parseHunkLoop lines i co cn chs
           = Inr (chs @ scanLines (take (j - i) (drop i lines)) co cn, j)
       \<and> (\<forall>k. i \<le> k \<and> k < j \<longrightarrow> \<not> hunkStop lines k)
       \<and> (j < length lines \<longrightarrow> hunkStop lines j)"
proof (induction "length lines - i" arbitrary: i co cn chs)
  case 0
  then show ?case by (intro exI[of _ i]) (auto simp: parseHunkLoop_end)
next
  case (Suc n)
  then have lt: "i < length lines" and n: "n = length lines - Suc i" by simp_all
  show ?case
  proof (cases "hunkStop lines i")
    case True
    with lt show ?thesis by (intro exI[of _ i]) (auto simp: parseHunkLoop_stop)
  next
    case False
    obtain c co' cn' where h: "hunkLine (lines ! i) co cn = (c, co', cn')"
      by (cases "hunkLine (lines ! i) co cn") auto
    let ?chs = "chs @ (case c of None \<Rightarrow> [] | Some x \<Rightarrow> [x])"
    from Suc.hyps(1)[OF n, of co' cn' ?chs]
    obtain j where j: "Suc i \<le> j" "j \<le> max (Suc i) (length lines)"
      "parseHunkLoop lines (Suc i) co' cn' ?chs
         = Inr (?chs @ scanLines (take (j - Suc i) (drop (Suc i) lines)) co' cn', j)"
      "\<forall>k. Suc i \<le> k \<and> k < j \<longrightarrow> \<not> hunkStop lines k"
      "j < length lines \<longrightarrow> hunkStop lines j"
      by blast
    from j(1) have ji: "j - i = Suc (j - Suc i)" by simp
    from lt have "drop i lines = lines ! i # drop (Suc i) lines"
      by (simp add: Cons_nth_drop_Suc)
    then have tk: "take (j - i) (drop i lines)
        = lines ! i # take (j - Suc i) (drop (Suc i) lines)"
      by (simp only: ji take_Suc_Cons)
    have "parseHunkLoop lines i co cn chs
        = Inr (chs @ scanLines (take (j - i) (drop i lines)) co cn, j)"
      using parseHunkLoop_step[OF lt False h] j(3) tk h by (simp split: option.splits)
    moreover have "\<forall>k. i \<le> k \<and> k < j \<longrightarrow> \<not> hunkStop lines k"
      using j(4) False by (metis Suc_leI le_neq_implies_less)
    ultimately show ?thesis using j(1,2,5) lt by (intro exI[of _ j]) auto
  qed
qed

lemma parseHunkLoop_total: "\<exists>r. parseHunkLoop lines i co cn chs = Inr r"
  using parseHunkLoop_result[of i lines co cn chs] by blast

lemma parseHunk_Some:
  assumes "parseHunk lines i e = Inr (Some (h, j))"
  shows "i < length lines \<and> i < j \<and> j \<le> length lines
         \<and> header h = lines ! i \<and> isExpanded h = e
         \<and> changes h = scanLines (take (j - Suc i) (drop (Suc i) lines)) (oldStart h) (newStart h)
         \<and> (\<forall>k. i < k \<and> k < j \<longrightarrow> \<not> hunkStop lines k)
         \<and> (j < length lines \<longrightarrow> hunkStop lines j)"
proof -
  from assms have lt: "i < length lines"
    by (cases "i < length lines") (auto simp: parseHunk_def)
  from assms lt obtain m1 m2 m3 m4 m5 where m: "matchHunkHeader (lines ! i) = Some (m1, m2, m3, m4, m5)"
    by (auto simp: parseHunk_def split: option.splits)
  from parseHunkLoop_result[of "Suc i" lines "parseInt m1" "parseInt m3" "[]"]
  obtain j' where j': "Suc i \<le> j'" "j' \<le> max (Suc i) (length lines)"
      "parseHunkLoop lines (Suc i) (parseInt m1) (parseInt m3) []
         = Inr ([] @ scanLines (take (j' - Suc i) (drop (Suc i) lines)) (parseInt m1) (parseInt m3), j')"
      "\<forall>k. Suc i \<le> k \<and> k < j' \<longrightarrow> \<not> hunkStop lines k"
      "j' < length lines \<longrightarrow> hunkStop lines j'"
    by blast
  from assms lt m j'(3) have "j = j'" and "oldStart h = parseInt m1" and "newStart h = parseInt m3"
    and "header h = lines ! i" and "isExpanded h = e"
    and "changes h = scanLines (take (j' - Suc i) (drop (Suc i) lines)) (parseInt m1) (parseInt m3)"
    by (auto simp: parseHunk_def Let_def)
  with j' lt show ?thesis by (auto simp: Suc_le_eq)
qed

lemma parseHunk_total: "i < length lines \<Longrightarrow> \<exists>r. parseHunk lines i e = Inr r"
  using parseHunkLoop_total
  by (auto simp: parseHunk_def Let_def split: option.splits prod.splits sum.splits) (metis sum.distinct(1) old.sum.exhaust)+

lemma hunkLine_cases:
  "(l \<noteq> [] \<and> hd l = CHR ''+'' \<and>
      hunkLine l co cn = (Some \<lparr>type = Some Add, content = drop 1 l, oldLineNumber = None,
                                 newLineNumber = Some cn, wordDiff = None\<rparr>, co, Suc cn))
   \<or> (l \<noteq> [] \<and> hd l = CHR ''-'' \<and>
      hunkLine l co cn = (Some \<lparr>type = Some Delete, content = drop 1 l, oldLineNumber = Some co,
                                 newLineNumber = None, wordDiff = None\<rparr>, Suc co, cn))
   \<or> ((l = [] \<or> hd l = CHR '' '') \<and>
      hunkLine l co cn = (Some \<lparr>type = Some Normal, content = drop 1 l, oldLineNumber = Some co,
                                 newLineNumber = Some cn, wordDiff = None\<rparr>, Suc co, Suc cn))
   \<or> (l \<noteq> [] \<and> hd l = CHR 0x5C \<and> hunkLine l co cn = (None, co, cn))
   \<or> (l \<noteq> [] \<and> hd l \<notin> {CHR ''+'', CHR ''-'', CHR '' '', CHR 0x5C} \<and>
      hunkLine l co cn = (Some \<lparr>type = None, content = drop 1 l, oldLineNumber = None,
                                 newLineNumber = None, wordDiff = None\<rparr>, co, cn))"
  by (cases l) (simp_all add: hunkLine_def)







lemma scanLines_presence:
  "c \<in> set (scanLines ls co cn) \<Longrightarrow>
     ((oldLineNumber c \<noteq> None) = (type c = Some Delete \<or> type c = Some Normal))
   \<and> ((newLineNumber c \<noteq> None) = (type c = Some Add \<or> type c = Some Normal))
   \<and> wordDiff c = None"
proof (induction ls arbitrary: co cn)
  case Nil
  then show ?case by simp
next
  case (Cons l ls)
  show ?case
    using hunkLine_cases[of l co cn] Cons.prems Cons.IH
    by (elim disjE conjE) auto
qed

section \<open>Unfolding the loops of parseFile and parseGitDiff\<close>

lemma parseHunk_cases:
  assumes "i < length lines"
  obtains "parseHunk lines i e = Inr None"
  | h k where "parseHunk lines i e = Inr (Some (h, k))"
  using parseHunk_total[OF assms, of e] by (metis option.exhaust surj_pair)

lemma parseFileHunks_end:
  "\<not> i < length lines \<Longrightarrow> parseFileHunks lines i hs e = Inr (hs, i)"
  by (simp add: parseFileHunks.simps)

lemma parseFileHunks_git:
  "i < length lines \<Longrightarrow> startsWith (lines ! i) ''diff --git'' \<Longrightarrow>
   parseFileHunks lines i hs e = Inr (hs, i)"
  by (simp add: parseFileHunks.simps[of lines i])

lemma parseFileHunks_skip:
  "i < length lines \<Longrightarrow> \<not> startsWith (lines ! i) ''diff --git'' \<Longrightarrow>
   \<not> startsWith (lines ! i) ''@@'' \<or> parseHunk lines i e = Inr None \<Longrightarrow>
   parseFileHunks lines i hs e = parseFileHunks lines (Suc i) hs e"
  by (auto simp: parseFileHunks.simps[of lines i])

lemma parseFileHunks_hunk:
  "i < length lines \<Longrightarrow> \<not> startsWith (lines ! i) ''diff --git'' \<Longrightarrow>
   startsWith (lines ! i) ''@@'' \<Longrightarrow> parseHunk lines i e = Inr (Some (h, k)) \<Longrightarrow>
   parseFileHunks lines i hs e = parseFileHunks lines k (hs @ [h]) e"
  by (simp add: parseFileHunks.simps[of lines i])

lemma parseFileHunks_all:
  assumes P: "\<And>k h j. parseHunk lines k e = Inr (Some (h, j)) \<Longrightarrow> P h"
  shows "\<forall>h\<in>set hs. P h \<Longrightarrow>
         \<exists>hs' j. parseFileHunks lines i hs e = Inr (hs', j) \<and> i \<le> j \<and> (\<forall>h\<in>set hs'. P h)"
proof (induction "length lines - i" arbitrary: i hs rule: less_induct)
  case less
  show ?case
  proof (cases "i < length lines")
    case False
    with less.prems show ?thesis by (simp add: parseFileHunks_end)
  next
    case lt: True
    show ?thesis
    proof (cases "startsWith (lines ! i) ''diff --git''")
      case True
      with lt less.prems show ?thesis by (simp add: parseFileHunks_git)
    next
      case ng: False
      from lt have m: "length lines - Suc i < length lines - i" by simp
      show ?thesis
      proof (cases "startsWith (lines ! i) ''@@''")
        case False
        with less.hyps[OF m less.prems] parseFileHunks_skip[OF lt ng, of e hs]
        show ?thesis by (auto dest: Suc_leD)
      next
        case at: True
        from lt show ?thesis
        proof (cases rule: parseHunk_cases[of i lines e])
          case 1
          with less.hyps[OF m less.prems] parseFileHunks_skip[OF lt ng, of e hs]
          show ?thesis by (auto dest: Suc_leD)
        next
          case (2 h k)
          then have ik: "i < k" by (rule parseHunk_index)
          with lt have mk: "length lines - k < length lines - i" by simp
          from P[OF 2] less.prems have "\<forall>x\<in>set (hs @ [h]). P x" by simp
          from less.hyps[OF mk this] parseFileHunks_hunk[OF lt ng at 2, of hs] ik
          show ?thesis by auto
        qed
      qed
    qed
  qed
qed

lemma parseFileMeta_total: "\<exists>st' j. parseFileMeta lines i st = Inr (st', j)"
proof (induction "length lines - i" arbitrary: i st)
  case 0
  then show ?case by (simp add: parseFileMeta.simps)
next
  case (Suc n)
  then have lt: "i < length lines" and n: "n = length lines - Suc i" by simp_all
  from Suc.hyps(1)[OF n] lt show ?case
    by (subst parseFileMeta.simps) simp
qed

lemma parseFile_cases:
  assumes "i < length lines"
    and P: "\<And>k h j. parseHunk lines k e = Inr (Some (h, j)) \<Longrightarrow> P h"
  shows "parseFile lines i e = Inr None
         \<or> (\<exists>f j. parseFile lines i e = Inr (Some (f, j)) \<and> i < j \<and> (\<forall>h\<in>set (hunks f). P h))"
proof (cases "matchGitLine (lines ! i)")
  case None
  with assms(1) show ?thesis by (simp add: parseFile_def)
next
  case (Some p)
  obtain oPath nPath where p: "p = (oPath, nPath)" by (cases p)
  obtain st k where meta: "parseFileMeta lines (Suc i) Modified = Inr (st, k)"
    using parseFileMeta_total by blast
  then have ik: "Suc i \<le> k" by (rule parseFileMeta_index)
  have "\<exists>hs' j. parseFileHunks lines k [] e = Inr (hs', j) \<and> k \<le> j \<and> (\<forall>h\<in>set hs'. P h)"
    by (rule parseFileHunks_all[where hs="[]"]) (use P in auto)
  then obtain hs j where hs: "parseFileHunks lines k [] e = Inr (hs, j)" "k \<le> j" "\<forall>h\<in>set hs. P h"
    by auto
  from assms(1) Some p meta hs ik show ?thesis
    by (simp add: parseFile_def)
qed

lemma parseGitDiffLoop_end:
  "\<not> i < length lines \<Longrightarrow> parseGitDiffLoop lines i files e = Inr files"
  by (simp add: parseGitDiffLoop.simps)

lemma parseGitDiffLoop_skip:
  "i < length lines \<Longrightarrow>
   \<not> startsWith (lines ! i) ''diff --git'' \<or> parseFile lines i e = Inr None \<Longrightarrow>
   parseGitDiffLoop lines i files e = parseGitDiffLoop lines (Suc i) files e"
  by (auto simp: parseGitDiffLoop.simps[of lines i])

lemma parseGitDiffLoop_file:
  "i < length lines \<Longrightarrow> startsWith (lines ! i) ''diff --git'' \<Longrightarrow>
   parseFile lines i e = Inr (Some (f, k)) \<Longrightarrow>
   parseGitDiffLoop lines i files e = parseGitDiffLoop lines k (files @ [f]) e"
  by (simp add: parseGitDiffLoop.simps[of lines i])

lemma parseGitDiffLoop_all:
  assumes P: "\<And>k h j. parseHunk lines k e = Inr (Some (h, j)) \<Longrightarrow> P h"
  shows "\<forall>f\<in>set files. \<forall>h\<in>set (hunks f). P h \<Longrightarrow>
         \<exists>fs. parseGitDiffLoop lines i files e = Inr fs \<and> (\<forall>f\<in>set fs. \<forall>h\<in>set (hunks f). P h)"
proof (induction "length lines - i" arbitrary: i files rule: less_induct)
  case less
  show ?case
  proof (cases "i < length lines")
    case False
    with less.prems show ?thesis by (simp add: parseGitDiffLoop_end)
  next
    case lt: True
    then have m: "length lines - Suc i < length lines - i" by simp
    show ?thesis
    proof (cases "startsWith (lines ! i) ''diff --git''")
      case False
      with less.hyps[OF m less.prems] parseGitDiffLoop_skip[OF lt, of e files]
      show ?thesis by simp
    next
      case git: True
      have "parseFile lines i e = Inr None
         \<or> (\<exists>f j. parseFile lines i e = Inr (Some (f, j)) \<and> i < j \<and> (\<forall>h\<in>set (hunks f). P h))"
        by (rule parseFile_cases[OF lt]) (rule P)
      then show ?thesis
      proof (elim disjE exE conjE)
        assume "parseFile lines i e = Inr None"
        with less.hyps[OF m less.prems] parseGitDiffLoop_skip[OF lt, of e files]
        show ?thesis by simp
      next
        fix f j
        assume pf: "parseFile lines i e = Inr (Some (f, j))" and ij: "i < j"
          and hf: "\<forall>h\<in>set (hunks f). P h"
        from ij lt have mj: "length lines - j < length lines - i" by simp
        from hf less.prems have "\<forall>x\<in>set (files @ [f]). \<forall>h\<in>set (hunks x). P h" by simp
        from less.hyps[OF mj this] parseGitDiffLoop_file[OF lt git pf, of files]
        show ?thesis by simp
      qed
    qed
  qed
qed

lemma parseGitDiff_hunks_all:
  assumes "\<And>lines k h j. parseHunk lines k e = Inr (Some (h, j)) \<Longrightarrow> P h"
  shows "\<exists>files. parseGitDiff diffOutput e = Inr files \<and> (\<forall>f\<in>set files. \<forall>h\<in>set (hunks f). P h)"
proof -
  have "\<exists>fs. parseGitDiffLoop (split diffOutput) 0 [] e = Inr fs
          \<and> (\<forall>f\<in>set fs. \<forall>h\<in>set (hunks f). P h)"
    by (rule parseGitDiffLoop_all[where files="[]"]) (use assms in auto)
  then show ?thesis by (simp add: parseGitDiff_def)
qed

lemma parseHunk_presence:
  assumes "parseHunk lines k e = Inr (Some (h, j))"
  shows "\<forall>c\<in>set (changes h).
             ((oldLineNumber c \<noteq> None) = (type c = Some Delete \<or> type c = Some Normal))
           \<and> ((newLineNumber c \<noteq> None) = (type c = Some Add \<or> type c = Some Normal))
           \<and> wordDiff c = None"
proof
  fix c assume c: "c \<in> set (changes h)"
  from parseHunk_Some[OF assms] have
    "changes h = scanLines (take (j - Suc k) (drop (Suc k) lines)) (oldStart h) (newStart h)"
    by simp
  with c scanLines_presence show
    "((oldLineNumber c \<noteq> None) = (type c = Some Delete \<or> type c = Some Normal))
           \<and> ((newLineNumber c \<noteq> None) = (type c = Some Add \<or> type c = Some Normal))
           \<and> wordDiff c = None"
    by metis
qed

section \<open>Lines of the input and the file marker\<close>

lemma startsWith_prefix: "startsWith s p = prefix p s"
  by (auto simp: startsWith_def prefix_def) (metis append_take_drop_id)

lemma includes_str_sublist: "includes_str s p = sublist p s"
  by (induction s) (simp_all add: startsWith_prefix sublist_Cons_right)

lemma splitFrom_sublist: "l \<in> set (splitFrom cur s) \<Longrightarrow> sublist l (cur @ s)"
proof (induction s arbitrary: cur)
  case Nil
  then show ?case by simp
next
  case (Cons c cs)
  show ?case
  proof (cases "c = CHR 0x0A")
    case True
    with Cons.prems have "l = cur \<or> l \<in> set (splitFrom [] cs)" by simp
    then show ?thesis
    proof
      assume "l = cur"
      then show ?thesis by (simp add: sublist_append_rightI)
    next
      assume "l \<in> set (splitFrom [] cs)"
      from Cons.IH[OF this] have "sublist l cs" by simp
      then show ?thesis unfolding sublist_def by (metis append.assoc append_Cons)
    qed
  next
    case False
    with Cons.prems have "l \<in> set (splitFrom (cur @ [c]) cs)" by simp
    from Cons.IH[OF this] show ?thesis by simp
  qed
qed

lemma split_line_includes:
  assumes "l \<in> set (split s)" and "startsWith l p"
  shows "includes_str s p"
proof -
  from assms(1) have "sublist l s" using splitFrom_sublist[of l "[]" s] by (simp add: split_def)
  moreover from assms(2) have "sublist p l" by (simp add: startsWith_prefix)
  ultimately have "sublist p s" unfolding sublist_def by (metis append.assoc)
  then show ?thesis by (simp add: includes_str_sublist)
qed

lemma parseGitDiffLoop_no_marker:
  "\<forall>k. i \<le> k \<and> k < length lines \<longrightarrow> \<not> startsWith (lines ! k) ''diff --git'' \<Longrightarrow>
   parseGitDiffLoop lines i files e = Inr files"
proof (induction "length lines - i" arbitrary: i)
  case 0
  then show ?case by (simp add: parseGitDiffLoop_end)
next
  case (Suc n)
  then have lt: "i < length lines" and n: "n = length lines - Suc i" by simp_all
  from Suc.prems lt have "\<not> startsWith (lines ! i) ''diff --git''" by simp
  moreover from Suc.prems have "\<forall>k. Suc i \<le> k \<and> k < length lines \<longrightarrow> \<not> startsWith (lines ! k) ''diff --git''"
    by simp
  ultimately show ?case
    using Suc.hyps(1)[OF n] parseGitDiffLoop_skip[OF lt, of e files] by simp
qed

section \<open>Claims about the parser\<close>

text \<open>
  C2. For every input string \<open>parseGitDiff\<close> returns a sequence of files and never the
  error value, the only way the model has to raise; and if the text \<open>diff --git\<close>
  occurs nowhere in the input the sequence is empty.
\<close>

theorem parseGitDiff_never_fails:
  "(\<exists>files. parseGitDiff diffOutput expandedByDefault = Inr files)
   \<and> (\<not> includes_str diffOutput ''diff --git'' \<longrightarrow>
        parseGitDiff diffOutput expandedByDefault = Inr [])"
proof
  show "\<exists>files. parseGitDiff diffOutput expandedByDefault = Inr files"
    using parseGitDiff_hunks_all[of expandedByDefault "\<lambda>h. True" diffOutput] by auto
next
  show "\<not> includes_str diffOutput ''diff --git'' \<longrightarrow>
        parseGitDiff diffOutput expandedByDefault = Inr []"
  proof
    assume no: "\<not> includes_str diffOutput ''diff --git''"
    have "\<forall>k. 0 \<le> k \<and> k < length (split diffOutput) \<longrightarrow>
            \<not> startsWith (split diffOutput ! k) ''diff --git''"
      using no split_line_includes nth_mem by blast
    then show "parseGitDiff diffOutput expandedByDefault = Inr []"
      unfolding parseGitDiff_def by (rule parseGitDiffLoop_no_marker)
  qed
qed

theorem parseGitDiff_never_fails_witness:
  "\<not> includes_str ''index 1..2'' ''diff --git'' \<and> parseGitDiff ''index 1..2'' True = Inr []"
  using parseGitDiff_never_fails[of "''index 1..2''" True]
  by (simp add: startsWith_def)

text \<open>
  C8. Every change produced by the parser has an old line number exactly when its type
  is delete or normal, and a new line number exactly when its type is add or normal.
  This holds of every change of every hunk of every file that \<open>parseGitDiff\<close> returns,
  also of the changes pushed for anomalous lines, which carry neither type nor number.
\<close>

theorem parseGitDiff_field_presence:
  assumes "parseGitDiff diffOutput expandedByDefault = Inr files"
  shows "\<forall>f\<in>set files. \<forall>h\<in>set (hunks f). \<forall>c\<in>set (changes h).
           ((oldLineNumber c \<noteq> None) = (type c = Some Delete \<or> type c = Some Normal))
         \<and> ((newLineNumber c \<noteq> None) = (type c = Some Add \<or> type c = Some Normal))"
proof -
  have "\<exists>fs. parseGitDiff diffOutput expandedByDefault = Inr fs
          \<and> (\<forall>f\<in>set fs. \<forall>h\<in>set (hunks f). \<forall>c\<in>set (changes h).
           ((oldLineNumber c \<noteq> None) = (type c = Some Delete \<or> type c = Some Normal))
         \<and> ((newLineNumber c \<noteq> None) = (type c = Some Add \<or> type c = Some Normal))
         \<and> wordDiff c = None)"
    by (rule parseGitDiff_hunks_all) (rule parseHunk_presence)
  with assms show ?thesis by auto
qed

theorem parseGitDiff_field_presence_witness:
  "parseGitDiff (''diff --git a/x b/x'' @ [CHR 0x0A] @ ''@@ -3,2 +3,2 @@'' @ [CHR 0x0A]
                 @ '' a'' @ [CHR 0x0A] @ ''-b'' @ [CHR 0x0A] @ ''+c'' @ [CHR 0x0A]
                 @ ''junk'' @ [CHR 0x0A]) True
   = Inr [\<lparr>oldPath = ''x'', newPath = ''x'',
           hunks = [\<lparr>header = ''@@ -3,2 +3,2 @@'', oldStart = 3, oldLines = 2,
                     newStart = 3, newLines = 2,
                     changes =
                       [\<lparr>type = Some Normal, content = ''a'', oldLineNumber = Some 3,
                          newLineNumber = Some 3, wordDiff = None\<rparr>,
                        \<lparr>type = Some Delete, content = ''b'', oldLineNumber = Some 4,
                          newLineNumber = None, wordDiff = None\<rparr>,
                        \<lparr>type = Some Add, content = ''c'', oldLineNumber = None,
                          newLineNumber = Some 4, wordDiff = None\<rparr>,
                        \<lparr>type = None, content = ''unk'', oldLineNumber = None,
                          newLineNumber = None, wordDiff = None\<rparr>],
                     isExpanded = True\<rparr>],
           status = Modified, fileIsExpanded = True\<rparr>]
   \<and> list_all (\<lambda>c.
           ((oldLineNumber c \<noteq> None) = (type c = Some Delete \<or> type c = Some Normal))
         \<and> ((newLineNumber c \<noteq> None) = (type c = Some Add \<or> type c = Some Normal)))
        [\<lparr>type = Some Normal, content = ''a'', oldLineNumber = Some 3,
                          newLineNumber = Some 3, wordDiff = None\<rparr>,
                        \<lparr>type = Some Delete, content = ''b'', oldLineNumber = Some 4,
                          newLineNumber = None, wordDiff = None\<rparr>,
                        \<lparr>type = Some Add, content = ''c'', oldLineNumber = None,
                          newLineNumber = Some (4::nat), wordDiff = None\<rparr>,
                        \<lparr>type = None, content = ''unk'', oldLineNumber = None,
                          newLineNumber = None, wordDiff = None\<rparr>]"
proof -
  let ?d = "''diff --git a/x b/x'' @ [CHR 0x0A] @ ''@@ -3,2 +3,2 @@'' @ [CHR 0x0A]
                 @ '' a'' @ [CHR 0x0A] @ ''-b'' @ [CHR 0x0A] @ ''+c'' @ [CHR 0x0A]
                 @ ''junk'' @ [CHR 0x0A]"
  have p: "parseGitDiff ?d True
   = Inr [\<lparr>oldPath = ''x'', newPath = ''x'',
           hunks = [\<lparr>header = ''@@ -3,2 +3,2 @@'', oldStart = 3, oldLines = 2,
                     newStart = 3, newLines = 2,
                     changes =
                       [\<lparr>type = Some Normal, content = ''a'', oldLineNumber = Some 3,
                          newLineNumber = Some 3, wordDiff = None\<rparr>,
                        \<lparr>type = Some Delete, content = ''b'', oldLineNumber = Some 4,
                          newLineNumber = None, wordDiff = None\<rparr>,
                        \<lparr>type = Some Add, content = ''c'', oldLineNumber = None,
                          newLineNumber = Some 4, wordDiff = None\<rparr>,
                        \<lparr>type = None, content = ''unk'', oldLineNumber = None,
                          newLineNumber = None, wordDiff = None\<rparr>],
                     isExpanded = True\<rparr>],
           status = Modified, fileIsExpanded = True\<rparr>]"
    by code_simp
  from parseGitDiff_field_presence[OF p] p show ?thesis by simp
qed

lemma parseHunk_starts:
  assumes "parseHunk lines i e = Inr (Some (h, j))"
  shows "\<exists>m1 m2 m3 m4 m5. matchHunkHeader (lines ! i) = Some (m1, m2, m3, m4, m5)
           \<and> oldStart h = parseInt m1 \<and> newStart h = parseInt m3
           \<and> oldLines h = (case m2 of Some d \<Rightarrow> parseInt d | None \<Rightarrow> 1)
           \<and> newLines h = (case m4 of Some d \<Rightarrow> parseInt d | None \<Rightarrow> 1)"
proof -
  from assms have lt: "i < length lines"
    by (cases "i < length lines") (auto simp: parseHunk_def)
  from assms lt obtain m1 m2 m3 m4 m5 where m: "matchHunkHeader (lines ! i) = Some (m1, m2, m3, m4, m5)"
    by (auto simp: parseHunk_def split: option.splits)
  obtain chs k where "parseHunkLoop lines (Suc i) (parseInt m1) (parseInt m3) [] = Inr (chs, k)"
    using parseHunkLoop_total[of lines "Suc i" "parseInt m1" "parseInt m3" "[]"] by auto
  with assms lt m show ?thesis by (auto simp: parseHunk_def Let_def)
qed



text \<open>
  C7. Wherever the line \<open>@@ -3,4 +3,6 @@ foo\<close> stands in the input, \<open>parseHunk\<close> at
  that line returns a hunk with \<open>oldStart = 3\<close>, \<open>oldLines = 4\<close>, \<open>newStart = 3\<close>,
  \<open>newLines = 6\<close> whose \<open>header\<close> is the line itself, context included (the fifth
  group of the pattern, the text after the second \<open>@@\<close>, is \<open>" foo"\<close>); and at a line
  \<open>@@ -1 +1 @@\<close> it returns a hunk with \<open>oldLines = 1\<close> and \<open>newLines = 1\<close>.
\<close>

theorem parseHunk_header_examples:
  assumes "i < length lines"
  shows "(lines ! i = ''@@ -3,4 +3,6 @@ foo'' \<longrightarrow>
           (\<exists>h j. parseHunk lines i e = Inr (Some (h, j))
              \<and> oldStart h = 3 \<and> oldLines h = 4 \<and> newStart h = 3 \<and> newLines h = 6
              \<and> header h = ''@@ -3,4 +3,6 @@ foo''
              \<and> matchHunkHeader (header h) = Some (''3'', Some ''4'', ''3'', Some ''6'', '' foo'')))
       \<and> (lines ! i = ''@@ -1 +1 @@'' \<longrightarrow>
           (\<exists>h j. parseHunk lines i e = Inr (Some (h, j))
              \<and> oldStart h = 1 \<and> oldLines h = 1 \<and> newStart h = 1 \<and> newLines h = 1
              \<and> header h = ''@@ -1 +1 @@''))"
proof -
  have m1: "matchHunkHeader ''@@ -3,4 +3,6 @@ foo'' = Some (''3'', Some ''4'', ''3'', Some ''6'', '' foo'')"
    by code_simp
  have m2: "matchHunkHeader ''@@ -1 +1 @@'' = Some (''1'', None, ''1'', None, [])"
    by code_simp
  have n: "parseInt ''3'' = 3" "parseInt ''4'' = 4" "parseInt ''6'' = 6" "parseInt ''1'' = 1"
    by (simp_all add: parseInt_def digitVal_def)
  obtain r where r: "parseHunk lines i e = Inr r"
    using parseHunk_total[OF assms] by blast
  show ?thesis
  proof (intro conjI impI)
    assume l: "lines ! i = ''@@ -3,4 +3,6 @@ foo''"
    with r assms m1 obtain h j where hj: "r = Some (h, j)"
      by (auto simp: parseHunk_def Let_def split: sum.splits prod.splits)
    from parseHunk_starts[of lines i e h j] parseHunk_Some[of lines i e h j] r hj l m1 n
    show "\<exists>h j. parseHunk lines i e = Inr (Some (h, j))
              \<and> oldStart h = 3 \<and> oldLines h = 4 \<and> newStart h = 3 \<and> newLines h = 6
              \<and> header h = ''@@ -3,4 +3,6 @@ foo''
              \<and> matchHunkHeader (header h) = Some (''3'', Some ''4'', ''3'', Some ''6'', '' foo'')"
      by auto
  next
    assume l: "lines ! i = ''@@ -1 +1 @@''"
    with r assms m2 obtain h j where hj: "r = Some (h, j)"
      by (auto simp: parseHunk_def Let_def split: sum.splits prod.splits)
    from parseHunk_starts[of lines i e h j] parseHunk_Some[of lines i e h j] r hj l m2 n
    show "\<exists>h j. parseHunk lines i e = Inr (Some (h, j))
              \<and> oldStart h = 1 \<and> oldLines h = 1 \<and> newStart h = 1 \<and> newLines h = 1
              \<and> header h = ''@@ -1 +1 @@''"
      by auto
  qed
qed

theorem parseHunk_header_examples_witness:
  "parseHunk [''@@ -3,4 +3,6 @@ foo'', ''@@ -1 +1 @@''] 0 False
     = Inr (Some (\<lparr>header = ''@@ -3,4 +3,6 @@ foo'', oldStart = 3, oldLines = 4,
                     newStart = 3, newLines = 6, changes = [], isExpanded = False\<rparr>, 1))
   \<and> parseHunk [''@@ -3,4 +3,6 @@ foo'', ''@@ -1 +1 @@''] 1 False
     = Inr (Some (\<lparr>header = ''@@ -1 +1 @@'', oldStart = 1, oldLines = 1,
                     newStart = 1, newLines = 1, changes = [], isExpanded = False\<rparr>, 2))"
proof -
  let ?ls = "[''@@ -3,4 +3,6 @@ foo'', ''@@ -1 +1 @@'']"
  obtain h j where a: "parseHunk ?ls 0 False = Inr (Some (h, j))"
    "oldStart h = 3" "oldLines h = 4" "newStart h = 3" "newLines h = 6"
    "header h = ''@@ -3,4 +3,6 @@ foo''"
    using parseHunk_header_examples[of 0 ?ls False] by auto
  obtain h' j' where b: "parseHunk ?ls 1 False = Inr (Some (h', j'))"
    "oldStart h' = 1" "oldLines h' = 1" "newStart h' = 1" "newLines h' = 1"
    "header h' = ''@@ -1 +1 @@''"
    using parseHunk_header_examples[of 1 ?ls False] by auto
  have "parseHunk ?ls 0 False
     = Inr (Some (\<lparr>header = ''@@ -3,4 +3,6 @@ foo'', oldStart = 3, oldLines = 4,
                     newStart = 3, newLines = 6, changes = [], isExpanded = False\<rparr>, 1))"
    by code_simp
  moreover have "parseHunk ?ls 1 False
     = Inr (Some (\<lparr>header = ''@@ -1 +1 @@'', oldStart = 1, oldLines = 1,
                     newStart = 1, newLines = 1, changes = [], isExpanded = False\<rparr>, 2))"
    by code_simp
  ultimately show ?thesis using a b by simp
qed

section \<open>The tokenizer\<close>

lemma tokenizeLoop_concat:
  "concat (tokenizeLoop s tokens current inWord) = concat tokens @ current @ s"
  by (induction s arbitrary: tokens current inWord) simp_all

definition uniform :: "string \<Rightarrow> bool" where
  "uniform t = (t \<noteq> [] \<and> (\<forall>c\<in>set t. isWordChar c = isWordChar (hd t)))"

lemma uniform_push:
  assumes "\<forall>t\<in>set tokens. uniform t" and "distinct_adj (map (\<lambda>t. isWordChar (hd t)) tokens)"
    and "current \<noteq> []" and "\<forall>c\<in>set current. isWordChar c = inWord"
    and "tokens \<noteq> [] \<longrightarrow> isWordChar (hd (last tokens)) \<noteq> inWord"
  shows "(\<forall>t\<in>set (tokens @ [current]). uniform t)
         \<and> distinct_adj (map (\<lambda>t. isWordChar (hd t)) (tokens @ [current]))
         \<and> isWordChar (hd (last (tokens @ [current]))) = inWord"
proof -
  from assms(3,4) have h: "isWordChar (hd current) = inWord" by (cases current) auto
  with assms(3,4) have "uniform current" by (simp add: uniform_def)
  moreover have "distinct_adj (map (\<lambda>t. isWordChar (hd t)) (tokens @ [current]))"
    using assms(2,5) h by (cases "tokens = []") (simp_all add: distinct_adj_append_iff last_map)
  ultimately show ?thesis using assms(1) h by simp
qed

lemma tokenizeLoop_runs:
  assumes "\<forall>t\<in>set tokens. uniform t" and "distinct_adj (map (\<lambda>t. isWordChar (hd t)) tokens)"
    and "\<forall>c\<in>set current. isWordChar c = inWord"
    and "tokens \<noteq> [] \<longrightarrow> current \<noteq> [] \<and> isWordChar (hd (last tokens)) \<noteq> inWord"
  shows "(\<forall>t\<in>set (tokenizeLoop s tokens current inWord). uniform t)
         \<and> distinct_adj (map (\<lambda>t. isWordChar (hd t)) (tokenizeLoop s tokens current inWord))"
  using assms
proof (induction s arbitrary: tokens current inWord)
  case Nil
  show ?case
  proof (cases "current = []")
    case True
    with Nil show ?thesis by auto
  next
    case False
    from Nil(4) have "tokens \<noteq> [] \<longrightarrow> isWordChar (hd (last tokens)) \<noteq> inWord" by simp
    from uniform_push[OF Nil(1,2) False Nil(3) this]
    have "(\<forall>t\<in>set (tokens @ [current]). uniform t)
         \<and> distinct_adj (map (\<lambda>t. isWordChar (hd t)) (tokens @ [current]))" by blast
    moreover from False have "tokenizeLoop [] tokens current inWord = tokens @ [current]" by simp
    ultimately show ?thesis by metis
  qed
next
  case (Cons ch rest)
  show ?case
  proof (cases "isWordChar ch \<noteq> inWord \<and> current \<noteq> []")
    case True
    then have ne: "current \<noteq> []" and d: "isWordChar ch \<noteq> inWord" by simp_all
    from Cons.prems(4) have "tokens \<noteq> [] \<longrightarrow> isWordChar (hd (last tokens)) \<noteq> inWord" by simp
    from uniform_push[OF Cons.prems(1,2) ne Cons.prems(3) this]
    have a: "\<forall>t\<in>set (tokens @ [current]). uniform t"
      and b: "distinct_adj (map (\<lambda>t. isWordChar (hd t)) (tokens @ [current]))"
      and c: "isWordChar (hd (last (tokens @ [current]))) = inWord"
      by blast+
    have "(\<forall>t\<in>set (tokenizeLoop rest (tokens @ [current]) [ch] (isWordChar ch)). uniform t)
         \<and> distinct_adj (map (\<lambda>t. isWordChar (hd t))
              (tokenizeLoop rest (tokens @ [current]) [ch] (isWordChar ch)))"
      using a b c d by (intro Cons.IH) auto
    with True show ?thesis by simp
  next
    case False
    have "(\<forall>t\<in>set (tokenizeLoop rest tokens (current @ [ch]) (isWordChar ch)). uniform t)
         \<and> distinct_adj (map (\<lambda>t. isWordChar (hd t))
              (tokenizeLoop rest tokens (current @ [ch]) (isWordChar ch)))"
      using Cons.prems False by (intro Cons.IH) auto
    with False show ?thesis by auto
  qed
qed

text \<open>
  C6. The tokenizer is lossless: the tokens of a line, concatenated in order, are the
  line. No token is empty, each token consists of word characters only or of non-word
  characters only, and two adjacent tokens are never of the same class. The empty line
  has no token, and \<open>foo-bar\<close> has the tokens \<open>foo\<close>, \<open>-\<close>, \<open>bar\<close>.
\<close>

theorem tokenize_lossless:
  "concat (tokenize line) = line
   \<and> (\<forall>t\<in>set (tokenize line).
         t \<noteq> [] \<and> ((\<forall>c\<in>set t. isWordChar c) \<or> (\<forall>c\<in>set t. \<not> isWordChar c)))
   \<and> (\<forall>k. Suc k < length (tokenize line) \<longrightarrow>
         isWordChar (hd (tokenize line ! k)) \<noteq> isWordChar (hd (tokenize line ! Suc k)))
   \<and> tokenize [] = []
   \<and> tokenize ''foo-bar'' = [''foo'', ''-'', ''bar'']"
proof -
  have r: "(\<forall>t\<in>set (tokenize line). uniform t)
         \<and> distinct_adj (map (\<lambda>t. isWordChar (hd t)) (tokenize line))"
    unfolding tokenize_def by (rule tokenizeLoop_runs) simp_all
  have "\<forall>t\<in>set (tokenize line).
         t \<noteq> [] \<and> ((\<forall>c\<in>set t. isWordChar c) \<or> (\<forall>c\<in>set t. \<not> isWordChar c))"
    using r unfolding uniform_def by metis
  moreover have "\<forall>k. Suc k < length (tokenize line) \<longrightarrow>
         isWordChar (hd (tokenize line ! k)) \<noteq> isWordChar (hd (tokenize line ! Suc k))"
  proof (intro allI impI)
    fix k assume k: "Suc k < length (tokenize line)"
    from r have "distinct_adj (map (\<lambda>t. isWordChar (hd t)) (tokenize line))" by simp
    from distinct_adj_nth[OF this, of k] k
    show "isWordChar (hd (tokenize line ! k)) \<noteq> isWordChar (hd (tokenize line ! Suc k))"
      by simp
  qed
  moreover have "concat (tokenize line) = line"
    by (simp add: tokenize_def tokenizeLoop_concat)
  moreover have "tokenize [] = []" by (simp add: tokenize_def)
  moreover have "tokenize ''foo-bar'' = [''foo'', ''-'', ''bar'']"
    by (simp add: tokenize_def isWordChar_def)
  ultimately show ?thesis by blast
qed

theorem tokenize_lossless_witness:
  "concat (tokenize ''const x = 1;'') = ''const x = 1;''
   \<and> tokenize ''const x = 1;'' = [''const'', '' '', ''x'', '' = '', ''1'', '';'']
   \<and> list_all (\<lambda>t. t \<noteq> [] \<and> (list_all isWordChar t \<or> list_all (\<lambda>c. \<not> isWordChar c) t))
        (tokenize ''const x = 1;'')
   \<and> isWordChar (hd (tokenize ''const x = 1;'' ! 0)) \<noteq> isWordChar (hd (tokenize ''const x = 1;'' ! Suc 0))"
proof -
  have t: "tokenize ''const x = 1;'' = [''const'', '' '', ''x'', '' = '', ''1'', '';'']"
    by (simp add: tokenize_def isWordChar_def)
  from tokenize_lossless[of "''const x = 1;''"] show ?thesis
    unfolding t by (simp add: list_all_iff isWordChar_def)
qed

section \<open>The metadata loop\<close>

text \<open>
  What a metadata line does in the first loop of \<open>parseFile\<close>: \<open>statusOf\<close> is the
  status it assigns, if any, and \<open>metaStop\<close> holds of the lines at which the loop is left.
\<close>

definition statusOf :: "string \<Rightarrow> FileStatus option" where
  "statusOf line =
     (if startsWith line ''new file mode'' then Some Added
      else if startsWith line ''deleted file mode'' then Some Deleted
      else if startsWith line ''rename from'' then Some Renamed
      else if startsWith line ''copy from'' then Some Copied
      else None)"

definition metaStop :: "string \<Rightarrow> bool" where
  "metaStop line =
     (startsWith line ''diff --git'' \<or> startsWith line ''@@'' \<or> startsWith line ''Binary files'')"

lemma startsWith_excl:
  "startsWith l p \<Longrightarrow> take (length q) p \<noteq> take (length p) q \<Longrightarrow> \<not> startsWith l q"
  unfolding startsWith_def by (metis take_take min.commute)

lemmas meta_excl =
  startsWith_excl[of _ "''diff --git''" "''new file mode''", simplified]
  startsWith_excl[of _ "''diff --git''" "''deleted file mode''", simplified]
  startsWith_excl[of _ "''diff --git''" "''rename from''", simplified]
  startsWith_excl[of _ "''diff --git''" "''copy from''", simplified]
  startsWith_excl[of _ "''diff --git''" "''Binary files''", simplified]
  startsWith_excl[of _ "''diff --git''" "''@@''", simplified]
  startsWith_excl[of _ "''@@''" "''new file mode''", simplified]
  startsWith_excl[of _ "''@@''" "''deleted file mode''", simplified]
  startsWith_excl[of _ "''@@''" "''rename from''", simplified]
  startsWith_excl[of _ "''@@''" "''copy from''", simplified]
  startsWith_excl[of _ "''@@''" "''index ''", simplified]
  startsWith_excl[of _ "''@@''" "''--- ''", simplified]
  startsWith_excl[of _ "''@@''" "''+++ ''", simplified]
  startsWith_excl[of _ "''Binary files''" "''new file mode''", simplified]
  startsWith_excl[of _ "''Binary files''" "''deleted file mode''", simplified]
  startsWith_excl[of _ "''Binary files''" "''rename from''", simplified]
  startsWith_excl[of _ "''Binary files''" "''copy from''", simplified]
  startsWith_excl[of _ "''Binary files''" "''index ''", simplified]
  startsWith_excl[of _ "''Binary files''" "''--- ''", simplified]
  startsWith_excl[of _ "''Binary files''" "''+++ ''", simplified]
  startsWith_excl[of _ "''Binary files''" "''@@''", simplified]

lemma parseFileMeta_stop:
  assumes "i < length lines" and "metaStop (lines ! i)"
  shows "parseFileMeta lines i st
         = Inr (st, if startsWith (lines ! i) ''Binary files'' then Suc i else i)"
  using assms unfolding metaStop_def
  by (subst parseFileMeta.simps) (auto dest: meta_excl)

lemma parseFileMeta_step:
  assumes "i < length lines" and "\<not> metaStop (lines ! i)"
  shows "parseFileMeta lines i st
         = parseFileMeta lines (Suc i) (case statusOf (lines ! i) of None \<Rightarrow> st | Some s \<Rightarrow> s)"
  using assms unfolding metaStop_def statusOf_def
  by (subst parseFileMeta.simps) auto

lemma parseFileMeta_result:
  "parseFileMeta lines i st
   = Inr (last (st # List.map_filter statusOf (takeWhile (\<lambda>l. \<not> metaStop l) (drop i lines))),
          (let n = i + length (takeWhile (\<lambda>l. \<not> metaStop l) (drop i lines))
           in if n < length lines \<and> startsWith (lines ! n) ''Binary files'' then Suc n else n))"
proof (induction "length lines - i" arbitrary: i st)
  case 0
  then show ?case by (simp add: parseFileMeta.simps List.map_filter_simps)
next
  case (Suc n)
  then have lt: "i < length lines" and n: "n = length lines - Suc i" by simp_all
  from lt have d: "drop i lines = lines ! i # drop (Suc i) lines"
    by (simp add: Cons_nth_drop_Suc)
  show ?case
  proof (cases "metaStop (lines ! i)")
    case True
    with lt d show ?thesis by (simp add: parseFileMeta_stop List.map_filter_simps)
  next
    case False
    show ?thesis
      unfolding parseFileMeta_step[OF lt False] Suc.hyps(1)[OF n] d
      using False by (simp add: List.map_filter_simps split: option.splits)
  qed
qed

lemma parseFile_result:
  assumes "i < length lines" and "matchGitLine (lines ! i) = Some (oPath, nPath)"
    and "parseFileMeta lines (Suc i) Modified = Inr (st, k)"
  shows "\<exists>hs j. parseFileHunks lines k [] e = Inr (hs, j)
           \<and> parseFile lines i e
               = Inr (Some (\<lparr>oldPath = oPath, newPath = nPath, hunks = hs, status = st,
                              fileIsExpanded = e\<rparr>, j))"
proof -
  have "\<exists>hs j. parseFileHunks lines k [] e = Inr (hs, j) \<and> k \<le> j \<and> (\<forall>h\<in>set hs. True)"
    by (rule parseFileHunks_all[where hs="[]"]) auto
  then obtain hs j where "parseFileHunks lines k [] e = Inr (hs, j)" by blast
  with assms show ?thesis by (simp add: parseFile_def)
qed

lemma parseFile_Some:
  assumes "parseFile lines i e = Inr (Some (f, j))"
  shows "i < length lines \<and> matchGitLine (lines ! i) = Some (oldPath f, newPath f)"
proof -
  from assms have lt: "i < length lines"
    by (cases "i < length lines") (auto simp: parseFile_def)
  with assms show ?thesis
    by (auto simp: parseFile_def split: option.splits sum.splits prod.splits)
qed

lemma parseFileHunks_no_header:
  "parseFileHunks lines i hs e = Inr (hs', j) \<Longrightarrow>
   \<forall>k. i \<le> k \<and> k < j \<longrightarrow> \<not> startsWith (lines ! k) ''@@'' \<Longrightarrow> hs' = hs"
proof (induction "length lines - i" arbitrary: i rule: less_induct)
  case less
  show ?case
  proof (cases "i < length lines")
    case False
    with less.prems show ?thesis by (simp add: parseFileHunks_end)
  next
    case lt: True
    then have m: "length lines - Suc i < length lines - i" by simp
    show ?thesis
    proof (cases "startsWith (lines ! i) ''diff --git''")
      case True
      with lt less.prems show ?thesis by (simp add: parseFileHunks_git)
    next
      case ng: False
      show ?thesis
      proof (cases "startsWith (lines ! i) ''@@''")
        case False
        with less.prems(1) parseFileHunks_skip[OF lt ng, of e hs]
        have r: "parseFileHunks lines (Suc i) hs e = Inr (hs', j)" by simp
        from less.prems(2) have "\<forall>k. Suc i \<le> k \<and> k < j \<longrightarrow> \<not> startsWith (lines ! k) ''@@''"
          by simp
        from less.hyps[OF m r this] show ?thesis .
      next
        case at: True
        with less.prems(2) have ji: "j \<le> i" by (meson le_refl not_le)
        from lt show ?thesis
        proof (cases rule: parseHunk_cases[of i lines e])
          case 1
          with less.prems(1) parseFileHunks_skip[OF lt ng, of e hs]
          have "parseFileHunks lines (Suc i) hs e = Inr (hs', j)" by simp
          then have "Suc i \<le> j" by (rule parseFileHunks_index)
          with ji show ?thesis by simp
        next
          case (2 h k)
          with less.prems(1) parseFileHunks_hunk[OF lt ng at 2, of hs]
          have "parseFileHunks lines k (hs @ [h]) e = Inr (hs', j)" by simp
          then have "k \<le> j" by (rule parseFileHunks_index)
          moreover from 2 have "i < k" by (rule parseHunk_index)
          ultimately show ?thesis using ji by simp
        qed
      qed
    qed
  qed
qed

section \<open>Claims about the file status and binary files\<close>

text \<open>
  C3, as the code has it. The status of the file that \<open>parseFile\<close> produces is the one set
  by the last status-setting line among the metadata lines, which are the lines after the
  \<open>diff --git\<close> line up to the first line that starts with \<open>@@\<close>, \<open>Binary files\<close> or
  \<open>diff --git\<close>; it is \<open>modified\<close> when there is no such line.
\<close>

theorem parseFile_status_last_marker:
  assumes "parseFile lines i e = Inr (Some (f, j))"
  shows "status f
         = last (Modified # List.map_filter statusOf
                   (takeWhile (\<lambda>l. \<not> metaStop l) (drop (Suc i) lines)))"
proof -
  from parseFile_Some[OF assms] have lt: "i < length lines"
    and m: "matchGitLine (lines ! i) = Some (oldPath f, newPath f)" by simp_all
  let ?st = "last (Modified # List.map_filter statusOf
                   (takeWhile (\<lambda>l. \<not> metaStop l) (drop (Suc i) lines)))"
  from parseFile_result[OF lt m parseFileMeta_result, of e]
  obtain hs j' where "parseFile lines i e
      = Inr (Some (\<lparr>oldPath = oldPath f, newPath = newPath f, hunks = hs, status = ?st,
                     fileIsExpanded = e\<rparr>, j'))"
    by blast
  with assms have "f = \<lparr>oldPath = oldPath f, newPath = newPath f, hunks = hs, status = ?st,
                     fileIsExpanded = e\<rparr>"
    by simp
  then have "status f = status \<lparr>oldPath = oldPath f, newPath = newPath f, hunks = hs,
                     status = ?st, fileIsExpanded = e\<rparr>"
    by (rule arg_cong)
  then show ?thesis by simp
qed

theorem parseFile_status_last_marker_witness:
  "parseFile [''diff --git a/x b/y'', ''new file mode 100644'', ''index 1..2'',
              ''copy from x'', ''@@ -1 +1 @@'', ''rename from x''] 0 True
     = Inr (Some (\<lparr>oldPath = ''x'', newPath = ''y'',
                    hunks = [\<lparr>header = ''@@ -1 +1 @@'', oldStart = 1, oldLines = 1, newStart = 1,
                              newLines = 1,
                              changes = [\<lparr>type = None, content = ''ename from x'',
                                          oldLineNumber = None, newLineNumber = None,
                                          wordDiff = None\<rparr>],
                              isExpanded = True\<rparr>],
                    status = Copied, fileIsExpanded = True\<rparr>, 6))
   \<and> Copied = last (Modified # List.map_filter statusOf
                   (takeWhile (\<lambda>l. \<not> metaStop l)
                      (drop (Suc 0) [''diff --git a/x b/y'', ''new file mode 100644'', ''index 1..2'',
                                     ''copy from x'', ''@@ -1 +1 @@'', ''rename from x''])))"
proof -
  have p: "parseFile [''diff --git a/x b/y'', ''new file mode 100644'', ''index 1..2'',
              ''copy from x'', ''@@ -1 +1 @@'', ''rename from x''] 0 True
     = Inr (Some (\<lparr>oldPath = ''x'', newPath = ''y'',
                    hunks = [\<lparr>header = ''@@ -1 +1 @@'', oldStart = 1, oldLines = 1, newStart = 1,
                              newLines = 1,
                              changes = [\<lparr>type = None, content = ''ename from x'',
                                          oldLineNumber = None, newLineNumber = None,
                                          wordDiff = None\<rparr>],
                              isExpanded = True\<rparr>],
                    status = Copied, fileIsExpanded = True\<rparr>, 6))"
    by code_simp
  from parseFile_status_last_marker[OF p] p show ?thesis by simp
qed

text \<open>
  C3 as stated fails: after \<open>new file mode\<close>, a later \<open>rename from\<close> line in the same
  section sets the status again, and the file comes out as renamed, not added.
\<close>

theorem parseGitDiff_status_counterexample:
  "parseGitDiff (''diff --git a/x b/y'' @ [CHR 0x0A] @ ''new file mode 100644'' @ [CHR 0x0A]
                 @ ''rename from x'') True
     = Inr [\<lparr>oldPath = ''x'', newPath = ''y'', hunks = [], status = Renamed,
              fileIsExpanded = True\<rparr>]
   \<and> statusOf ''new file mode 100644'' = Some Added
   \<and> Renamed \<noteq> Added"
  by code_simp

text \<open>
  C9, as the code has it. When the metadata lines of a file section reach a line that
  starts with \<open>Binary files\<close>, the metadata loop ends there: the status is the one set
  by the lines before it, and the hunk loop starts at the line after it. A file entry
  is produced; its hunks are those the hunk loop finds from there up to the next file
  boundary, and there are none when no line in that range starts with \<open>@@\<close>.
\<close>

theorem parseFile_binary:
  assumes "i < length lines" and "matchGitLine (lines ! i) = Some (oPath, nPath)"
    and "i < b" and "b < length lines"
    and "\<forall>k. i < k \<and> k < b \<longrightarrow> \<not> metaStop (lines ! k)"
    and "startsWith (lines ! b) ''Binary files''"
  shows "\<exists>hs j. parseFileHunks lines (Suc b) [] e = Inr (hs, j)
           \<and> parseFile lines i e
               = Inr (Some (\<lparr>oldPath = oPath, newPath = nPath, hunks = hs,
                              status = last (Modified # List.map_filter statusOf
                                               (take (b - Suc i) (drop (Suc i) lines))),
                              fileIsExpanded = e\<rparr>, j))
           \<and> ((\<forall>k. b < k \<and> k < j \<longrightarrow> \<not> startsWith (lines ! k) ''@@'') \<longrightarrow> hs = [])"
proof -
  let ?rest = "drop (Suc i) lines"
  let ?n = "b - Suc i"
  from assms(3,4) have nlen: "?n < length ?rest" by simp
  from assms(3) have nb: "Suc i + ?n = b" by simp
  have tw: "takeWhile (\<lambda>l. \<not> metaStop l) ?rest = take ?n ?rest"
  proof (rule takeWhile_eq_take_P_nth)
    fix k assume "k < ?n" and "k < length ?rest"
    with assms(5) show "\<not> metaStop (?rest ! k)" by simp
  next
    from assms(6) nb assms(4) show "\<not> \<not> metaStop (?rest ! ?n)"
      by (simp add: metaStop_def)
  qed
  from nlen have len: "length (take ?n ?rest) = ?n" by simp
  have meta: "parseFileMeta lines (Suc i) Modified
      = Inr (last (Modified # List.map_filter statusOf (take ?n ?rest)), Suc b)"
    unfolding parseFileMeta_result tw len nb using assms(4,6) by (simp add: Let_def)
  from parseFile_result[OF assms(1,2) meta, of e]
  obtain hs j where hs: "parseFileHunks lines (Suc b) [] e = Inr (hs, j)"
    and pf: "parseFile lines i e
               = Inr (Some (\<lparr>oldPath = oPath, newPath = nPath, hunks = hs,
                              status = last (Modified # List.map_filter statusOf (take ?n ?rest)),
                              fileIsExpanded = e\<rparr>, j))"
    by blast
  have "(\<forall>k. b < k \<and> k < j \<longrightarrow> \<not> startsWith (lines ! k) ''@@'') \<longrightarrow> hs = []"
    using parseFileHunks_no_header[OF hs] by (simp add: Suc_le_eq)
  with hs pf show ?thesis by blast
qed

theorem parseFile_binary_witness:
  "parseFile [''diff --git a/x b/x'', ''deleted file mode 100644'',
              ''Binary files a/x and /dev/null differ'', ''rename from q'',
              ''diff --git a/y b/y''] 0 True
     = Inr (Some (\<lparr>oldPath = ''x'', newPath = ''x'', hunks = [], status = Deleted,
                    fileIsExpanded = True\<rparr>, 4))"
proof -
  let ?ls = "[''diff --git a/x b/x'', ''deleted file mode 100644'',
              ''Binary files a/x and /dev/null differ'', ''rename from q'',
              ''diff --git a/y b/y'']"
  have m: "matchGitLine (?ls ! 0) = Some (''x'', ''x'')" by code_simp
  have ns: "\<forall>k. 0 < k \<and> k < 2 \<longrightarrow> \<not> metaStop (?ls ! k)"
  proof (intro allI impI)
    fix k :: nat assume "0 < k \<and> k < 2"
    then have "k = 1" by simp
    then show "\<not> metaStop (?ls ! k)" by (simp add: metaStop_def startsWith_def)
  qed
  have b: "startsWith (?ls ! 2) ''Binary files''" by (simp add: startsWith_def)
  have h: "parseFileHunks ?ls (Suc 2) [] True = Inr ([], 4)" by code_simp
  have s: "last (Modified # List.map_filter statusOf (take (2 - Suc 0) (drop (Suc 0) ?ls))) = Deleted"
    by (simp add: List.map_filter_simps statusOf_def startsWith_def)
  from parseFile_binary[of 0 ?ls "''x''" "''x''" 2 True, OF _ m _ _ ns b] h s
  show ?thesis by simp
qed

text \<open>
  C9 as stated fails: lines that start with \<open>@@\<close> after the \<open>Binary files\<close> line are
  still parsed as hunks, so the hunk list of the file need not be empty.
\<close>

theorem parseGitDiff_binary_counterexample:
  "parseGitDiff (''diff --git a/x b/x'' @ [CHR 0x0A] @ ''Binary files a/x and b/x differ''
                 @ [CHR 0x0A] @ ''@@ -1 +1 @@'' @ [CHR 0x0A] @ ''-a'' @ [CHR 0x0A] @ ''+b'') True
     = Inr [\<lparr>oldPath = ''x'', newPath = ''x'',
              hunks = [\<lparr>header = ''@@ -1 +1 @@'', oldStart = 1, oldLines = 1, newStart = 1,
                        newLines = 1,
                        changes = [\<lparr>type = Some Delete, content = ''a'', oldLineNumber = Some 1,
                                     newLineNumber = None, wordDiff = None\<rparr>,
                                   \<lparr>type = Some Add, content = ''b'', oldLineNumber = None,
                                     newLineNumber = Some 1, wordDiff = None\<rparr>],
                        isExpanded = True\<rparr>],
              status = Modified, fileIsExpanded = True\<rparr>]"
  by code_simp

section \<open>The old side of a hunk\<close>

lemma scanLines_old_contents:
  assumes "\<forall>l\<in>set ls. l \<noteq> [] \<and> hd l \<in> {CHR ''+'', CHR ''-'', CHR '' '', CHR 0x5C}"
  shows "map content (filter (\<lambda>c. type c = Some Delete \<or> type c = Some Normal) (scanLines ls co cn))
         = map tl (filter (\<lambda>l. hd l = CHR ''-'' \<or> hd l = CHR '' '') ls)"
  using assms
proof (induction ls arbitrary: co cn)
  case Nil
  show ?case by simp
next
  case (Cons l ls)
  then have l: "l \<noteq> []" "hd l \<in> {CHR ''+'', CHR ''-'', CHR '' '', CHR 0x5C}"
    and ih: "\<And>co cn. map content (filter (\<lambda>c. type c = Some Delete \<or> type c = Some Normal)
                          (scanLines ls co cn))
              = map tl (filter (\<lambda>l. hd l = CHR ''-'' \<or> hd l = CHR '' '') ls)"
    by simp_all
  show ?case
    using hunkLine_cases[of l co cn] l
    by (elim disjE conjE) (simp_all add: ih drop_Suc)
qed

lemma marker_line_not_stop:
  assumes "k < length lines" and "lines ! k \<noteq> []"
    and "hd (lines ! k) \<in> {CHR ''+'', CHR ''-'', CHR '' '', CHR 0x5C}"
  shows "\<not> hunkStop lines k"
  using assms by (cases "lines ! k") (auto simp: hunkStop_def startsWith_def)

lemma startsWith_appendD: "startsWith l (p @ q) \<Longrightarrow> startsWith l p"
  unfolding startsWith_prefix by (rule append_prefixD)

lemma matchHunkHeader_at:
  assumes "matchHunkHeader l \<noteq> None"
  shows "startsWith l ''@@''"
proof -
  from assms have "startsWith l (''@@'' @ '' -'')"
    by (auto simp: matchHunkHeader_def split: if_splits)
  then show ?thesis by (rule startsWith_appendD)
qed

lemma matchGitLine_git:
  assumes "matchGitLine l \<noteq> None"
  shows "startsWith l ''diff --git''"
proof -
  from assms have "startsWith l (''diff --git'' @ '' a/'')"
    by (auto simp: matchGitLine_def split: if_splits)
  then show ?thesis by (rule startsWith_appendD)
qed

lemma parseHunk_body:
  assumes k: "k < length lines" and hh: "matchHunkHeader (lines ! k) \<noteq> None"
    and d: "drop (Suc k) lines = body @ trailer"
    and body: "\<forall>l\<in>set body. l \<noteq> [] \<and> hd l \<in> {CHR ''+'', CHR ''-'', CHR '' '', CHR 0x5C}"
    and trailer: "trailer = [] \<or> trailer = [[]]"
  shows "\<exists>h. parseHunk lines k e = Inr (Some (h, Suc k + length body))
           \<and> header h = lines ! k
           \<and> changes h = scanLines body (oldStart h) (newStart h)"
proof -
  obtain r where r: "parseHunk lines k e = Inr r" using parseHunk_total[OF k] by blast
  with k hh obtain h j where hj: "r = Some (h, j)"
    by (auto simp: parseHunk_def Let_def split: option.splits sum.splits prod.splits)
  from parseHunk_Some[of lines k e h j] r hj have
    kj: "k < j" and jl: "j \<le> length lines" and hd: "header h = lines ! k"
    and ch: "changes h = scanLines (take (j - Suc k) (drop (Suc k) lines)) (oldStart h) (newStart h)"
    and ns: "\<forall>t. k < t \<and> t < j \<longrightarrow> \<not> hunkStop lines t"
    and st: "j < length lines \<longrightarrow> hunkStop lines j"
    by simp_all
  from d have len: "length lines - Suc k = length body + length trailer"
    by (metis length_append length_drop)
  with k have len': "length lines = Suc k + length body + length trailer" by simp
  have nth_body: "\<And>t. Suc k \<le> t \<Longrightarrow> t < Suc k + length body \<Longrightarrow> lines ! t = body ! (t - Suc k)"
  proof -
    fix t assume t: "Suc k \<le> t" "t < Suc k + length body"
    with len' have "lines ! t = drop (Suc k) lines ! (t - Suc k)" by simp
    moreover from t have "t - Suc k < length body" by arith
    ultimately show "lines ! t = body ! (t - Suc k)" by (simp add: d nth_append)
  qed
  have body_ns: "\<And>t. Suc k \<le> t \<Longrightarrow> t < Suc k + length body \<Longrightarrow> \<not> hunkStop lines t"
  proof -
    fix t assume t: "Suc k \<le> t" "t < Suc k + length body"
    then have "body ! (t - Suc k) \<in> set body" by simp
    with body nth_body[OF t] have "lines ! t \<noteq> []"
      and "hd (lines ! t) \<in> {CHR ''+'', CHR ''-'', CHR '' '', CHR 0x5C}" by simp_all
    moreover from t len' have "t < length lines" by simp
    ultimately show "\<not> hunkStop lines t" using marker_line_not_stop by blast
  qed
  have "j = Suc k + length body"
  proof (rule ccontr)
    assume ne: "j \<noteq> Suc k + length body"
    show False
    proof (cases "j < Suc k + length body")
      case True
      with len' have "j < length lines" by simp
      with st have "hunkStop lines j" by simp
      moreover from kj True have "\<not> hunkStop lines j" by (intro body_ns) simp_all
      ultimately show False by simp
    next
      case False
      with ne have gt: "Suc k + length body < j" by simp
      with jl len' have tr: "trailer = [[]]" using trailer by auto
      with len' have last: "Suc k + length body = length lines - 1" by simp
      from len' tr have lt: "Suc k + length body < length lines" by simp
      then have "lines ! (Suc k + length body) = drop (Suc k) lines ! length body" by simp
      with d tr have "lines ! (Suc k + length body) = []" by (simp add: nth_append)
      with last have "hunkStop lines (Suc k + length body)" by (simp add: hunkStop_def)
      moreover from ns gt have "\<not> hunkStop lines (Suc k + length body)" by simp
      ultimately show False by simp
    qed
  qed
  with ch d have "changes h = scanLines body (oldStart h) (newStart h)" by simp
  with r hj hd \<open>j = Suc k + length body\<close> show ?thesis by simp
qed

text \<open>
  C1. Take a diff text whose lines are a \<open>diff --git\<close> line that matches the file
  pattern, metadata lines, one hunk header that matches the hunk pattern, body lines
  that all start with \<open>+\<close>, \<open>-\<close>, a space or a backslash, and possibly one final empty
  piece after the last line feed. Then \<open>parseGitDiff\<close> returns one file with one hunk, and
  the contents of its delete and normal changes, in order, are the body lines that start
  with \<open>-\<close> or a space, in order, without that first character.
\<close>

theorem parseGitDiff_old_slice:
  assumes lines: "split diffOutput = gitLine # meta @ hunkHeader # body @ trailer"
    and git: "matchGitLine gitLine \<noteq> None"
    and meta: "\<forall>l\<in>set meta. \<not> metaStop l"
    and hh: "matchHunkHeader hunkHeader \<noteq> None"
    and body: "\<forall>l\<in>set body. l \<noteq> [] \<and> hd l \<in> {CHR ''+'', CHR ''-'', CHR '' '', CHR 0x5C}"
    and trailer: "trailer = [] \<or> trailer = [[]]"
  shows "\<exists>f h. parseGitDiff diffOutput e = Inr [f] \<and> hunks f = [h] \<and> header h = hunkHeader
           \<and> map content (filter (\<lambda>c. type c = Some Delete \<or> type c = Some Normal) (changes h))
               = map tl (filter (\<lambda>l. hd l = CHR ''-'' \<or> hd l = CHR '' '') body)"
proof -
  let ?ls = "split diffOutput"
  let ?k = "Suc (length meta)"
  let ?j = "Suc ?k + length body"
  have len: "length ?ls = ?j + length trailer" by (simp add: lines)
  have k: "?k < length ?ls" by (simp add: lines)
  have lk: "?ls ! ?k = hunkHeader" by (simp add: lines nth_append)
  have l0: "?ls ! 0 = gitLine" by (simp add: lines)
  have dk: "drop (Suc ?k) ?ls = body @ trailer" by (simp add: lines)
  have at: "startsWith hunkHeader ''@@''" using hh by (rule matchHunkHeader_at)
  then have stop: "metaStop hunkHeader" by (simp add: metaStop_def)
  have nb: "\<not> startsWith hunkHeader ''Binary files''" and ng: "\<not> startsWith hunkHeader ''diff --git''"
    using at by (auto dest: meta_excl)
  \<comment> \<open>the metadata loop stops at the hunk header\<close>
  have tw: "takeWhile (\<lambda>l. \<not> metaStop l) (drop (Suc 0) ?ls) = meta"
    using meta stop by (simp add: lines takeWhile_append2)
  obtain st where pm: "parseFileMeta ?ls (Suc 0) Modified = Inr (st, ?k)"
    unfolding parseFileMeta_result tw using k lk nb by (simp add: Let_def)
  \<comment> \<open>the hunk\<close>
  from parseHunk_body[OF k _ dk body trailer, of e] hh lk
  obtain h where ph: "parseHunk ?ls ?k e = Inr (Some (h, ?j))" and hd: "header h = hunkHeader"
    and ch: "changes h = scanLines body (oldStart h) (newStart h)"
    by auto
  \<comment> \<open>the hunk loop\<close>
  have after: "parseFileHunks ?ls ?j [h] e = Inr ([h], length ?ls)"
  proof (cases "trailer = []")
    case True
    with len show ?thesis by (simp add: parseFileHunks_end)
  next
    case False
    with trailer have tr: "trailer = [[]]" by simp
    with len have lt: "?j < length ?ls" and suc: "Suc ?j = length ?ls" by simp_all
    from lt have "?ls ! ?j = drop (Suc ?k) ?ls ! length body" by simp
    with dk tr have e: "?ls ! ?j = []" by (simp add: nth_append)
    have "parseFileHunks ?ls ?j [h] e = parseFileHunks ?ls (Suc ?j) [h] e"
      using e by (intro parseFileHunks_skip[OF lt]) (simp_all add: startsWith_def)
    also have "\<dots> = Inr ([h], length ?ls)"
      using suc by (simp add: parseFileHunks_end)
    finally show ?thesis .
  qed
  have fh: "parseFileHunks ?ls ?k [] e = Inr ([h], length ?ls)"
    using parseFileHunks_hunk[OF k _ _ ph, of "[]"] lk ng at after by simp
  \<comment> \<open>the file and the outer loop\<close>
  obtain oPath nPath where m: "matchGitLine (?ls ! 0) = Some (oPath, nPath)"
    using git l0 by auto
  have l0lt: "0 < length ?ls" by (simp add: lines)
  from parseFile_result[OF l0lt m pm, of e] fh
  have pf: "parseFile ?ls 0 e
      = Inr (Some (\<lparr>oldPath = oPath, newPath = nPath, hunks = [h], status = st,
                     fileIsExpanded = e\<rparr>, length ?ls))"
    by simp
  have g0: "startsWith (?ls ! 0) ''diff --git''" using git l0 by (simp add: matchGitLine_git)
  have "parseGitDiff diffOutput e
        = Inr [\<lparr>oldPath = oPath, newPath = nPath, hunks = [h], status = st, fileIsExpanded = e\<rparr>]"
    unfolding parseGitDiff_def parseGitDiffLoop_file[OF l0lt g0 pf]
    by (simp add: parseGitDiffLoop_end)
  moreover have "map content (filter (\<lambda>c. type c = Some Delete \<or> type c = Some Normal) (changes h))
               = map tl (filter (\<lambda>l. hd l = CHR ''-'' \<or> hd l = CHR '' '') body)"
    unfolding ch using body by (rule scanLines_old_contents)
  ultimately show ?thesis using hd by simp
qed

theorem parseGitDiff_old_slice_witness:
  "parseGitDiff (''diff --git a/f.c b/f.c'' @ [CHR 0x0A] @ ''index 1a..2b 100644'' @ [CHR 0x0A]
                 @ ''--- a/f.c'' @ [CHR 0x0A] @ ''+++ b/f.c'' @ [CHR 0x0A]
                 @ ''@@ -1,3 +1,3 @@ int f()'' @ [CHR 0x0A] @ '' {'' @ [CHR 0x0A]
                 @ ''-  return 1;'' @ [CHR 0x0A] @ ''+  return 2;'' @ [CHR 0x0A] @ '' }''
                 @ [CHR 0x0A] @ [CHR 0x5C] @ '' No newline at end of file'' @ [CHR 0x0A]) True
   = Inr [\<lparr>oldPath = ''f.c'', newPath = ''f.c'',
            hunks = [\<lparr>header = ''@@ -1,3 +1,3 @@ int f()'', oldStart = 1, oldLines = 3,
                      newStart = 1, newLines = 3,
                      changes =
                        [\<lparr>type = Some Normal, content = ''{'', oldLineNumber = Some 1,
                           newLineNumber = Some 1, wordDiff = None\<rparr>,
                         \<lparr>type = Some Delete, content = ''  return 1;'', oldLineNumber = Some 2,
                           newLineNumber = None, wordDiff = None\<rparr>,
                         \<lparr>type = Some Add, content = ''  return 2;'', oldLineNumber = None,
                           newLineNumber = Some 2, wordDiff = None\<rparr>,
                         \<lparr>type = Some Normal, content = ''}'', oldLineNumber = Some 3,
                           newLineNumber = Some 3, wordDiff = None\<rparr>],
                      isExpanded = True\<rparr>],
            status = Modified, fileIsExpanded = True\<rparr>]
   \<and> map content (filter (\<lambda>c. type c = Some Delete \<or> type c = Some Normal)
         [\<lparr>type = Some Normal, content = ''{'', oldLineNumber = Some 1,
            newLineNumber = Some 1, wordDiff = None\<rparr>,
          \<lparr>type = Some Delete, content = ''  return 1;'', oldLineNumber = Some 2,
            newLineNumber = None, wordDiff = None\<rparr>,
          \<lparr>type = Some Add, content = ''  return 2;'', oldLineNumber = None,
            newLineNumber = Some 2, wordDiff = None\<rparr>,
          \<lparr>type = Some Normal, content = ''}'', oldLineNumber = Some (3::nat),
            newLineNumber = Some (3::nat), wordDiff = None\<rparr>])
     = [''{'', ''  return 1;'', ''}'']"
proof -
  let ?d = "''diff --git a/f.c b/f.c'' @ [CHR 0x0A] @ ''index 1a..2b 100644'' @ [CHR 0x0A]
                 @ ''--- a/f.c'' @ [CHR 0x0A] @ ''+++ b/f.c'' @ [CHR 0x0A]
                 @ ''@@ -1,3 +1,3 @@ int f()'' @ [CHR 0x0A] @ '' {'' @ [CHR 0x0A]
                 @ ''-  return 1;'' @ [CHR 0x0A] @ ''+  return 2;'' @ [CHR 0x0A] @ '' }''
                 @ [CHR 0x0A] @ [CHR 0x5C] @ '' No newline at end of file'' @ [CHR 0x0A]"
  have s: "split ?d = ''diff --git a/f.c b/f.c'' # [''index 1a..2b 100644'', ''--- a/f.c'', ''+++ b/f.c'']
             @ ''@@ -1,3 +1,3 @@ int f()''
             # ['' {'', ''-  return 1;'', ''+  return 2;'', '' }'', CHR 0x5C # '' No newline at end of file'']
             @ [[]]"
    by (simp add: split_def)
  have g: "matchGitLine ''diff --git a/f.c b/f.c'' \<noteq> None" by code_simp
  have m: "\<forall>l\<in>set [''index 1a..2b 100644'', ''--- a/f.c'', ''+++ b/f.c'']. \<not> metaStop l"
    by (simp add: metaStop_def startsWith_def)
  have h: "matchHunkHeader ''@@ -1,3 +1,3 @@ int f()'' \<noteq> None" by code_simp
  have b: "\<forall>l\<in>set ['' {'', ''-  return 1;'', ''+  return 2;'', '' }'', CHR 0x5C # '' No newline at end of file''].
             l \<noteq> [] \<and> hd l \<in> {CHR ''+'', CHR ''-'', CHR '' '', CHR 0x5C}"
    by simp
  have p: "parseGitDiff ?d True
   = Inr [\<lparr>oldPath = ''f.c'', newPath = ''f.c'',
            hunks = [\<lparr>header = ''@@ -1,3 +1,3 @@ int f()'', oldStart = 1, oldLines = 3,
                      newStart = 1, newLines = 3,
                      changes =
                        [\<lparr>type = Some Normal, content = ''{'', oldLineNumber = Some 1,
                           newLineNumber = Some 1, wordDiff = None\<rparr>,
                         \<lparr>type = Some Delete, content = ''  return 1;'', oldLineNumber = Some 2,
                           newLineNumber = None, wordDiff = None\<rparr>,
                         \<lparr>type = Some Add, content = ''  return 2;'', oldLineNumber = None,
                           newLineNumber = Some 2, wordDiff = None\<rparr>,
                         \<lparr>type = Some Normal, content = ''}'', oldLineNumber = Some 3,
                           newLineNumber = Some 3, wordDiff = None\<rparr>],
                      isExpanded = True\<rparr>],
            status = Modified, fileIsExpanded = True\<rparr>]"
    by code_simp
  from parseGitDiff_old_slice[OF s g m h b, of True] p show ?thesis by simp
qed

section \<open>The common subsequence\<close>

lemma lcsBacktrack_subseq:
  "i \<le> length a \<Longrightarrow> j \<le> length b \<Longrightarrow>
   \<exists>p. lcsBacktrack a b dp i j lcs = p @ lcs \<and> subseq p (take i a) \<and> subseq p (take j b)"
proof (induction "i + j" arbitrary: i j lcs rule: less_induct)
  case less
  show ?case
  proof (cases "i > 0 \<and> j > 0")
    case False
    then show ?thesis by (subst lcsBacktrack.simps) auto
  next
    case True
    then obtain i' j' where ij: "i = Suc i'" "j = Suc j'" by (metis Suc_pred)
    from less.prems ij have le: "i' \<le> length a" "j' \<le> length b" "i' < length a" "j' < length b"
      by simp_all
    have ta: "take i a = take i' a @ [a ! i']" and tb: "take j b = take j' b @ [b ! j']"
      using le ij by (simp_all add: take_Suc_conv_app_nth)
    show ?thesis
    proof (cases "a ! i' = b ! j'")
      case eq: True
      from less.hyps[of i' j' "a ! i' # lcs"] le ij
      obtain p where p: "lcsBacktrack a b dp i' j' (a ! i' # lcs) = p @ a ! i' # lcs"
        "subseq p (take i' a)" "subseq p (take j' b)" by auto
      have "lcsBacktrack a b dp i j lcs = (p @ [a ! i']) @ lcs"
        using p(1) eq ij by (subst lcsBacktrack.simps) simp
      moreover have "subseq (p @ [a ! i']) (take i a)"
        unfolding ta using p(2) by (simp add: list_emb_append_mono)
      moreover have "subseq (p @ [a ! i']) (take j b)"
        unfolding tb using p(3) eq by (simp add: list_emb_append_mono)
      ultimately show ?thesis by blast
    next
      case ne: False
      show ?thesis
      proof (cases "dp ! i' ! j > dp ! i ! j'")
        case True
        from less.hyps[of i' j lcs] le ij less.prems
        obtain p where p: "lcsBacktrack a b dp i' j lcs = p @ lcs"
          "subseq p (take i' a)" "subseq p (take j b)" by auto
        have "lcsBacktrack a b dp i j lcs = p @ lcs"
          using p(1) ne ij True by (subst lcsBacktrack.simps) simp
        moreover from p(2) have "subseq p (take i a)"
          unfolding ta by (rule list_emb_prefix)
        ultimately show ?thesis using p(3) by blast
      next
        case False
        from less.hyps[of i j' lcs] le ij less.prems
        obtain p where p: "lcsBacktrack a b dp i j' lcs = p @ lcs"
          "subseq p (take i a)" "subseq p (take j' b)" by auto
        have "lcsBacktrack a b dp i j lcs = p @ lcs"
          using p(1) ne ij False by (subst lcsBacktrack.simps) simp
        moreover from p(3) have "subseq p (take j b)"
          unfolding tb by (rule list_emb_prefix)
        ultimately show ?thesis using p(2) by blast
      qed
    qed
  qed
qed

lemma computeLCS_subseq: "subseq (computeLCS a b) a \<and> subseq (computeLCS a b) b"
  using lcsBacktrack_subseq[of "length a" a "length b" b "dpFill a b" "[]"]
  by (auto simp: computeLCS_def)

section \<open>The merge loop of computeLineDiff\<close>

lemma emitUntil_result:
  "emitUntil ws stop emit t idx result
   = (idx + length (takeWhile (\<lambda>w. w \<noteq> stop) (drop idx ws)),
      result @ (if emit then map (\<lambda>w. \<lparr>wtype = t, wvalue = w\<rparr>)
                               (takeWhile (\<lambda>w. w \<noteq> stop) (drop idx ws))
                else []))"
proof (induction "length ws - idx" arbitrary: idx result)
  case 0
  then show ?case by (simp add: emitUntil.simps)
next
  case (Suc n)
  then have lt: "idx < length ws" and n: "n = length ws - Suc idx" by simp_all
  from lt have d: "drop idx ws = ws ! idx # drop (Suc idx) ws"
    by (simp add: Cons_nth_drop_Suc)
  show ?case
    by (subst emitUntil.simps) (simp add: lt d Suc.hyps(1)[OF n])
qed

lemma emitRest_result:
  "emitRest ws emit t idx result
   = (max idx (length ws),
      result @ (if emit then map (\<lambda>w. \<lparr>wtype = t, wvalue = w\<rparr>) (drop idx ws) else []))"
proof (induction "length ws - idx" arbitrary: idx result)
  case 0
  then show ?case by (simp add: emitRest.simps)
next
  case (Suc n)
  then have lt: "idx < length ws" and n: "n = length ws - Suc idx" by simp_all
  from lt have d: "drop idx ws = ws ! idx # drop (Suc idx) ws"
    by (simp add: Cons_nth_drop_Suc)
  show ?case
    using lt by (subst emitRest.simps) (auto simp: d Suc.hyps(1)[OF n] max_def)
qed

lemma subseq_Cons_split:
  assumes "subseq (x # xs) ys"
  shows "ys = takeWhile (\<lambda>w. w \<noteq> x) ys @ x # drop (Suc (length (takeWhile (\<lambda>w. w \<noteq> x) ys))) ys
         \<and> subseq xs (drop (Suc (length (takeWhile (\<lambda>w. w \<noteq> x) ys))) ys)"
  using assms
proof (induction ys rule: list.induct)
  case Nil
  then show ?case by simp
next
  case (Cons y ys)
  show ?case
  proof (cases "y = x")
    case True
    with Cons.prems show ?thesis by simp
  next
    case False
    with Cons.prems have "subseq (x # xs) ys" by simp
    from Cons.IH[OF this] False show ?thesis by simp
  qed
qed

text \<open>The word changes a side of the line diff consists of: one per token of that side.\<close>

definition sideOf :: "ChangeType \<Rightarrow> string list \<Rightarrow> WordChange list \<Rightarrow> bool" where
  "sideOf t ws r = (map wvalue r = ws \<and> (\<forall>w\<in>set r. wtype w = t \<or> wtype w = Normal))"

lemma sideOf_Nil [simp]: "sideOf t [] []"
  by (simp add: sideOf_def)

lemma sideOf_append: "sideOf t ws r \<Longrightarrow> sideOf t ws' r' \<Longrightarrow> sideOf t (ws @ ws') (r @ r')"
  by (auto simp: sideOf_def)

lemma sideOf_map: "sideOf t ws (map (\<lambda>w. \<lparr>wtype = t, wvalue = w\<rparr>) ws)"
  by (simp add: sideOf_def comp_def)

lemma sideOf_normal: "sideOf t [x] [\<lparr>wtype = Normal, wvalue = x\<rparr>]"
  by (simp add: sideOf_def)

lemma lineDiffLoop_exhausted:
  assumes "\<not> lcsIdx < length lcs"
  shows "lineDiffLoop oldWords newWords lcs forType oldIdx newIdx lcsIdx result
         = result
           @ (if forType = Delete then map (\<lambda>w. \<lparr>wtype = Delete, wvalue = w\<rparr>) (drop oldIdx oldWords)
              else [])
           @ (if forType = Add then map (\<lambda>w. \<lparr>wtype = Add, wvalue = w\<rparr>) (drop newIdx newWords)
              else [])"
proof (cases "oldIdx < length oldWords \<or> newIdx < length newWords")
  case False
  then show ?thesis by (subst lineDiffLoop.simps) simp
next
  case True
  have fin: "\<And>r. lineDiffLoop oldWords newWords lcs forType (max oldIdx (length oldWords))
                  (max newIdx (length newWords)) lcsIdx r = r"
    by (subst lineDiffLoop.simps) simp
  show ?thesis
    using True assms
    by (subst lineDiffLoop.simps) (simp add: emitRest_result fin)
qed

lemma lineDiffLoop_sides:
  assumes "subseq (drop lcsIdx lcs) (drop oldIdx oldWords)"
    and "subseq (drop lcsIdx lcs) (drop newIdx newWords)"
  shows "\<exists>r. lineDiffLoop oldWords newWords lcs forType oldIdx newIdx lcsIdx result = result @ r
           \<and> (forType = Delete \<longrightarrow> sideOf Delete (drop oldIdx oldWords) r)
           \<and> (forType = Add \<longrightarrow> sideOf Add (drop newIdx newWords) r)"
  using assms
proof (induction "length lcs - lcsIdx" arbitrary: lcsIdx oldIdx newIdx result)
  case 0
  then have "\<not> lcsIdx < length lcs" by simp
  from lineDiffLoop_exhausted[OF this] show ?case
    by (cases forType) (auto simp: sideOf_map)
next
  case (Suc n)
  then have lt: "lcsIdx < length lcs" and n: "n = length lcs - Suc lcsIdx" by simp_all
  let ?x = "lcs ! lcsIdx"
  let ?po = "takeWhile (\<lambda>w. w \<noteq> ?x) (drop oldIdx oldWords)"
  let ?pn = "takeWhile (\<lambda>w. w \<noteq> ?x) (drop newIdx newWords)"
  from lt have dl: "drop lcsIdx lcs = ?x # drop (Suc lcsIdx) lcs"
    by (simp add: Cons_nth_drop_Suc)
  from Suc.prems(1) subseq_Cons_split[of ?x "drop (Suc lcsIdx) lcs" "drop oldIdx oldWords"]
  have so: "drop oldIdx oldWords = ?po @ ?x # drop (Suc (oldIdx + length ?po)) oldWords"
    and ro: "subseq (drop (Suc lcsIdx) lcs) (drop (Suc (oldIdx + length ?po)) oldWords)"
    unfolding dl by (simp_all add: add.commute)
  from Suc.prems(2) subseq_Cons_split[of ?x "drop (Suc lcsIdx) lcs" "drop newIdx newWords"]
  have sn: "drop newIdx newWords = ?pn @ ?x # drop (Suc (newIdx + length ?pn)) newWords"
    and rn: "subseq (drop (Suc lcsIdx) lcs) (drop (Suc (newIdx + length ?pn)) newWords)"
    unfolding dl by (simp_all add: add.commute)
  from so have "drop oldIdx oldWords \<noteq> []" by (metis append_is_Nil_conv list.distinct(1))
  then have cond: "oldIdx < length oldWords \<or> newIdx < length newWords" by simp
  let ?mid = "(if forType = Delete then map (\<lambda>w. \<lparr>wtype = Delete, wvalue = w\<rparr>) ?po else [])
              @ (if forType = Add then map (\<lambda>w. \<lparr>wtype = Add, wvalue = w\<rparr>) ?pn else [])
              @ [\<lparr>wtype = Normal, wvalue = ?x\<rparr>]"
  have step: "lineDiffLoop oldWords newWords lcs forType oldIdx newIdx lcsIdx result
      = lineDiffLoop oldWords newWords lcs forType (Suc (oldIdx + length ?po))
          (Suc (newIdx + length ?pn)) (Suc lcsIdx) (result @ ?mid)"
    using cond lt by (subst lineDiffLoop.simps) (simp add: emitUntil_result)
  from Suc.hyps(1)[OF n ro rn, of "result @ ?mid"]
  obtain r where r: "lineDiffLoop oldWords newWords lcs forType (Suc (oldIdx + length ?po))
          (Suc (newIdx + length ?pn)) (Suc lcsIdx) (result @ ?mid) = (result @ ?mid) @ r"
    and rd: "forType = Delete \<longrightarrow> sideOf Delete (drop (Suc (oldIdx + length ?po)) oldWords) r"
    and ra: "forType = Add \<longrightarrow> sideOf Add (drop (Suc (newIdx + length ?pn)) newWords) r"
    by blast
  have "lineDiffLoop oldWords newWords lcs forType oldIdx newIdx lcsIdx result = result @ (?mid @ r)"
    using step r by simp
  moreover have "forType = Delete \<longrightarrow> sideOf Delete (drop oldIdx oldWords) (?mid @ r)"
  proof
    assume f: "forType = Delete"
    with rd have "sideOf Delete (?po @ [?x] @ drop (Suc (oldIdx + length ?po)) oldWords)
                    (map (\<lambda>w. \<lparr>wtype = Delete, wvalue = w\<rparr>) ?po @ [\<lparr>wtype = Normal, wvalue = ?x\<rparr>] @ r)"
      by (intro sideOf_append sideOf_map sideOf_normal) simp
    with f so show "sideOf Delete (drop oldIdx oldWords) (?mid @ r)" by simp
  qed
  moreover have "forType = Add \<longrightarrow> sideOf Add (drop newIdx newWords) (?mid @ r)"
  proof
    assume f: "forType = Add"
    with ra have "sideOf Add (?pn @ [?x] @ drop (Suc (newIdx + length ?pn)) newWords)
                    (map (\<lambda>w. \<lparr>wtype = Add, wvalue = w\<rparr>) ?pn @ [\<lparr>wtype = Normal, wvalue = ?x\<rparr>] @ r)"
      by (intro sideOf_append sideOf_map sideOf_normal) simp
    with f sn show "sideOf Add (drop newIdx newWords) (?mid @ r)" by simp
  qed
  ultimately show ?case by blast
qed

lemma computeLineDiff_sides:
  "sideOf Delete (tokenize oldLine) (computeLineDiff oldLine newLine Delete)
   \<and> sideOf Add (tokenize newLine) (computeLineDiff oldLine newLine Add)"
proof -
  let ?o = "tokenize oldLine" and ?n = "tokenize newLine"
  have s: "subseq (drop 0 (computeLCS ?o ?n)) (drop 0 ?o)" "subseq (drop 0 (computeLCS ?o ?n)) (drop 0 ?n)"
    using computeLCS_subseq[of ?o ?n] by simp_all
  from lineDiffLoop_sides[OF s, of Delete "[]"] lineDiffLoop_sides[OF s, of Add "[]"]
  show ?thesis by (auto simp: computeLineDiff_def Let_def)
qed

lemma computeLineDiff_concat:
  "concat (map wvalue (computeLineDiff oldLine newLine Delete)) = oldLine
   \<and> concat (map wvalue (computeLineDiff oldLine newLine Add)) = newLine"
  using computeLineDiff_sides[of oldLine newLine]
  by (simp add: sideOf_def tokenize_def tokenizeLoop_concat)

section \<open>The word-diff pass over the rest of a hunk\<close>

text \<open>
  What the branch of \<open>computeHunkWordDiffs\<close> for a replacement block pushes, and the loop
  read as a recursion over the changes from index \<open>i\<close> on; \<open>hunkWordDiffsLoop_from\<close> below
  shows that the loop of the source computes it.
\<close>

definition replaceBlock :: "DiffChange list \<Rightarrow> DiffChange list \<Rightarrow> DiffChange list" where
  "replaceBlock deletes adds =
     (if length deletes > 0 \<and> length adds > 0 \<and> length deletes \<le> 5 \<and> length adds \<le> 5
      then pairDeletes deletes adds (min (length deletes) (length adds))
           @ pairAdds deletes adds (min (length deletes) (length adds))
      else deletes @ adds)"

function wordDiffsFrom :: "DiffChange list \<Rightarrow> DiffChange list" where
  "wordDiffsFrom [] = []"
| "wordDiffsFrom (c # cs) =
     (if type c = Some Delete then
        replaceBlock (takeWhile (\<lambda>x. type x = Some Delete) (c # cs))
          (takeWhile (\<lambda>x. type x = Some Add) (dropWhile (\<lambda>x. type x = Some Delete) (c # cs)))
        @ wordDiffsFrom
            (dropWhile (\<lambda>x. type x = Some Add) (dropWhile (\<lambda>x. type x = Some Delete) (c # cs)))
      else c # wordDiffsFrom cs)"
  by pat_completeness auto
termination
proof (relation "measure length", goal_cases)
  case 1
  show ?case by simp
next
  case (2 c cs)
  have "length (dropWhile (\<lambda>x. type x = Some Add) (dropWhile (\<lambda>x. type x = Some Delete) cs))
        \<le> length cs"
    by (meson length_dropWhile_le le_trans)
  with 2 show ?case by simp
next
  case 3
  show ?case by simp
qed

declare wordDiffsFrom.simps [simp del]

lemma hunkWordDiffsLoop_from:
  "hunkWordDiffsLoop chs i result = result @ wordDiffsFrom (drop i chs)"
proof (induction "length chs - i" arbitrary: i result rule: less_induct)
  case less
  show ?case
  proof (cases "i < length chs")
    case False
    then show ?thesis
      by (subst hunkWordDiffsLoop.simps) (simp add: wordDiffsFrom.simps)
  next
    case lt: True
    then have d: "drop i chs = chs ! i # drop (Suc i) chs"
      by (simp add: Cons_nth_drop_Suc)
    show ?thesis
    proof (cases "type (chs ! i) = Some Delete")
      case False
      from lt have "length chs - Suc i < length chs - i" by simp
      from less.hyps[OF this] lt False show ?thesis
        by (subst hunkWordDiffsLoop.simps) (simp add: d wordDiffsFrom.simps)
    next
      case True
      let ?ds = "takeWhile (\<lambda>x. type x = Some Delete) (drop i chs)"
      let ?r1 = "dropWhile (\<lambda>x. type x = Some Delete) (drop i chs)"
      let ?as = "takeWhile (\<lambda>x. type x = Some Add) ?r1"
      let ?r2 = "dropWhile (\<lambda>x. type x = Some Add) ?r1"
      let ?i1 = "i + length ?ds"
      let ?i2 = "?i1 + length ?as"
      have "drop ?i1 chs = drop (length ?ds) (drop i chs)" by (simp only: drop_drop add.commute)
      also have "\<dots> = ?r1" by (rule dropWhile_eq_drop[symmetric])
      finally have r1: "drop ?i1 chs = ?r1" .
      have "drop ?i2 chs = drop (length ?as) (drop ?i1 chs)" by (simp only: drop_drop add.commute)
      also have "\<dots> = drop (length ?as) ?r1" by (simp only: r1)
      also have "\<dots> = ?r2" by (rule dropWhile_eq_drop[symmetric])
      finally have r2: "drop ?i2 chs = ?r2" .
      have c1: "collect Delete chs i [] = (?ds, ?i1)" by (simp add: collect_takeWhile)
      have c2: "collect Add chs ?i1 [] = (?as, ?i2)" by (simp add: collect_takeWhile r1)
      from True d have "?ds \<noteq> []" by simp
      then have "0 < length ?ds" by blast
      then have "i < ?i2" by linarith
      with lt have m: "length chs - ?i2 < length chs - i" by linarith
      have "hunkWordDiffsLoop chs i result
            = hunkWordDiffsLoop chs ?i2 (result @ replaceBlock ?ds ?as)"
        using lt True
        by (subst hunkWordDiffsLoop.simps) (simp add: c1 c2 replaceBlock_def Let_def)
      also have "\<dots> = (result @ replaceBlock ?ds ?as) @ wordDiffsFrom ?r2"
        unfolding less.hyps[OF m] r2 ..
      also have "\<dots> = result @ wordDiffsFrom (drop i chs)"
        using True by (simp add: d wordDiffsFrom.simps)
      finally show ?thesis .
    qed
  qed
qed

lemma computeHunkWordDiffs_from: "computeHunkWordDiffs chs = wordDiffsFrom chs"
  by (simp add: computeHunkWordDiffs_def hunkWordDiffsLoop_from)

lemma pairDeletes_length [simp]: "length (pairDeletes ds as m) = length ds"
  by (simp add: pairDeletes_def)

lemma pairAdds_length [simp]: "length (pairAdds ds as m) = length as"
  by (simp add: pairAdds_def)

lemma pairDeletes_nth:
  "k < length ds \<Longrightarrow>
   pairDeletes ds as m ! k
   = (if k < m
      then (ds ! k)\<lparr>wordDiff := Some (computeLineDiff (content (ds ! k)) (content (as ! k)) Delete)\<rparr>
      else ds ! k)"
  by (simp add: pairDeletes_def)

lemma pairAdds_nth:
  "k < length as \<Longrightarrow>
   pairAdds ds as m ! k
   = (if k < m
      then (as ! k)\<lparr>wordDiff := Some (computeLineDiff (content (ds ! k)) (content (as ! k)) Add)\<rparr>
      else as ! k)"
  by (simp add: pairAdds_def)

lemma replaceBlock_length [simp]: "length (replaceBlock ds as) = length ds + length as"
  by (simp add: replaceBlock_def)

lemma replaceBlock_frame:
  "map (\<lambda>c. c\<lparr>wordDiff := None\<rparr>) (replaceBlock ds as) = map (\<lambda>c. c\<lparr>wordDiff := None\<rparr>) (ds @ as)"
proof -
  have "map (\<lambda>c. c\<lparr>wordDiff := None\<rparr>) (pairDeletes ds as m) = map (\<lambda>c. c\<lparr>wordDiff := None\<rparr>) ds" for m
    by (rule nth_equalityI) (simp_all add: pairDeletes_nth)
  moreover have "map (\<lambda>c. c\<lparr>wordDiff := None\<rparr>) (pairAdds ds as m) = map (\<lambda>c. c\<lparr>wordDiff := None\<rparr>) as" for m
    by (rule nth_equalityI) (simp_all add: pairAdds_nth)
  ultimately show ?thesis by (simp add: replaceBlock_def)
qed

lemma wordDiffsFrom_frame:
  "map (\<lambda>c. c\<lparr>wordDiff := None\<rparr>) (wordDiffsFrom cs) = map (\<lambda>c. c\<lparr>wordDiff := None\<rparr>) cs"
proof (induction cs rule: wordDiffsFrom.induct)
  case 1
  show ?case by (simp add: wordDiffsFrom.simps)
next
  case (2 c cs)
  show ?case
  proof (cases "type c = Some Delete")
    case False
    with 2(2) show ?thesis by (simp add: wordDiffsFrom.simps)
  next
    case True
    let ?ds = "takeWhile (\<lambda>x. type x = Some Delete) (c # cs)"
    let ?r1 = "dropWhile (\<lambda>x. type x = Some Delete) (c # cs)"
    let ?as = "takeWhile (\<lambda>x. type x = Some Add) ?r1"
    let ?r2 = "dropWhile (\<lambda>x. type x = Some Add) ?r1"
    have id: "c # cs = ?ds @ ?as @ ?r2" by (simp only: takeWhile_dropWhile_id)
    have "wordDiffsFrom (c # cs) = replaceBlock ?ds ?as @ wordDiffsFrom ?r2"
      using True by (subst wordDiffsFrom.simps) (simp only: simp_thms if_True)
    then have "map (\<lambda>c. c\<lparr>wordDiff := None\<rparr>) (wordDiffsFrom (c # cs))
        = map (\<lambda>c. c\<lparr>wordDiff := None\<rparr>) (?ds @ ?as) @ map (\<lambda>c. c\<lparr>wordDiff := None\<rparr>) ?r2"
      by (simp only: map_append replaceBlock_frame 2(1)[OF True])
    also have "\<dots> = map (\<lambda>c. c\<lparr>wordDiff := None\<rparr>) (?ds @ ?as @ ?r2)"
      by (simp only: map_append append_assoc)
    finally show ?thesis by (simp only: id [symmetric])
  qed
qed

lemma replaceBlock_elems:
  assumes "c \<in> set (replaceBlock ds as)"
  shows "c \<in> set ds \<or> c \<in> set as
       \<or> (\<exists>k<length ds. c = (ds ! k)\<lparr>wordDiff :=
              Some (computeLineDiff (content (ds ! k)) (content (as ! k)) Delete)\<rparr>)
       \<or> (\<exists>k<length as. c = (as ! k)\<lparr>wordDiff :=
              Some (computeLineDiff (content (ds ! k)) (content (as ! k)) Add)\<rparr>)"
proof (cases "length ds > 0 \<and> length as > 0 \<and> length ds \<le> 5 \<and> length as \<le> 5")
  case False
  with assms show ?thesis by (auto simp: replaceBlock_def)
next
  case True
  let ?m = "min (length ds) (length as)"
  from True assms have "c \<in> set (pairDeletes ds as ?m) \<or> c \<in> set (pairAdds ds as ?m)"
    by (auto simp: replaceBlock_def)
  then show ?thesis
  proof
    assume "c \<in> set (pairDeletes ds as ?m)"
    then obtain k where k: "k < length ds" "c = pairDeletes ds as ?m ! k"
      by (metis in_set_conv_nth pairDeletes_length)
    then show ?thesis by (cases "k < ?m") (auto simp: pairDeletes_nth)
  next
    assume "c \<in> set (pairAdds ds as ?m)"
    then obtain k where k: "k < length as" "c = pairAdds ds as ?m ! k"
      by (metis in_set_conv_nth pairAdds_length)
    then show ?thesis by (cases "k < ?m") (auto simp: pairAdds_nth)
  qed
qed

text \<open>What C10 says of one change: its word diff, if it has one, spells its content.\<close>

definition spellsContent :: "DiffChange \<Rightarrow> bool" where
  "spellsContent c =
     (case wordDiff c of
        None \<Rightarrow> True
      | Some ws \<Rightarrow>
          concat (map wvalue ws) = content c
          \<and> (type c = Some Delete \<or> type c = Some Add)
          \<and> (type c = Some Delete \<longrightarrow> (\<forall>w\<in>set ws. wtype w = Delete \<or> wtype w = Normal))
          \<and> (type c = Some Add \<longrightarrow> (\<forall>w\<in>set ws. wtype w = Add \<or> wtype w = Normal)))"

lemma wordDiffsFrom_spells:
  "\<forall>c\<in>set cs. wordDiff c = None \<Longrightarrow> \<forall>c\<in>set (wordDiffsFrom cs). spellsContent c"
proof (induction cs rule: wordDiffsFrom.induct)
  case 1
  show ?case by (simp add: wordDiffsFrom.simps)
next
  case (2 c cs)
  show ?case
  proof (cases "type c = Some Delete")
    case False
    with 2(2)[OF False] 2(3) show ?thesis
      by (simp add: wordDiffsFrom.simps spellsContent_def)
  next
    case True
    let ?ds = "takeWhile (\<lambda>x. type x = Some Delete) (c # cs)"
    let ?r1 = "dropWhile (\<lambda>x. type x = Some Delete) (c # cs)"
    let ?as = "takeWhile (\<lambda>x. type x = Some Add) ?r1"
    let ?r2 = "dropWhile (\<lambda>x. type x = Some Add) ?r1"
    have w: "wordDiffsFrom (c # cs) = replaceBlock ?ds ?as @ wordDiffsFrom ?r2"
      using True by (subst wordDiffsFrom.simps) (simp only: simp_thms if_True)
    have sub: "set ?ds \<subseteq> set (c # cs)" "set ?as \<subseteq> set (c # cs)" "set ?r2 \<subseteq> set (c # cs)"
      by (meson set_takeWhileD set_dropWhileD subsetI)+
    have tds: "\<forall>d\<in>set ?ds. type d = Some Delete" by (meson set_takeWhileD)
    have tas: "\<forall>a\<in>set ?as. type a = Some Add" by (meson set_takeWhileD)
    from sub(3) 2(3) have "\<forall>c\<in>set ?r2. wordDiff c = None" by blast
    from 2(1)[OF True this] have rest: "\<forall>x\<in>set (wordDiffsFrom ?r2). spellsContent x" .
    have "\<forall>x\<in>set (replaceBlock ?ds ?as). spellsContent x"
    proof
      fix x assume "x \<in> set (replaceBlock ?ds ?as)"
      from replaceBlock_elems[OF this] show "spellsContent x"
      proof (elim disjE exE conjE)
        assume "x \<in> set ?ds"
        with sub(1) 2(3) show ?thesis by (auto simp: spellsContent_def)
      next
        assume "x \<in> set ?as"
        with sub(2) 2(3) have "wordDiff x = None" by blast
        then show ?thesis by (simp add: spellsContent_def)
      next
        fix k assume "k < length ?ds"
          and x: "x = (?ds ! k)\<lparr>wordDiff :=
                 Some (computeLineDiff (content (?ds ! k)) (content (?as ! k)) Delete)\<rparr>"
        with tds have "type (?ds ! k) = Some Delete" by (meson nth_mem)
        with computeLineDiff_sides[of "content (?ds ! k)" "content (?as ! k)"]
          computeLineDiff_concat[of "content (?ds ! k)" "content (?as ! k)"]
        show ?thesis unfolding x by (simp add: spellsContent_def sideOf_def)
      next
        fix k assume "k < length ?as"
          and x: "x = (?as ! k)\<lparr>wordDiff :=
                 Some (computeLineDiff (content (?ds ! k)) (content (?as ! k)) Add)\<rparr>"
        with tas have "type (?as ! k) = Some Add" by (meson nth_mem)
        with computeLineDiff_sides[of "content (?ds ! k)" "content (?as ! k)"]
          computeLineDiff_concat[of "content (?ds ! k)" "content (?as ! k)"]
        show ?thesis unfolding x by (simp add: spellsContent_def sideOf_def)
      qed
    qed
    with rest show ?thesis unfolding w by auto
  qed
qed

section \<open>Claims about the word diff\<close>

text \<open>
  C10. Let \<open>computeWordDiffs\<close> run on files whose changes carry no word diff yet, as the
  parser produces them. Then every change of the result that has a word diff is a delete
  or an add change, the values of its word tokens, concatenated in order, are its
  content, and its tokens are of type delete or normal on a delete change (they spell
  the old line) and of type add or normal on an add change (they spell the new line).
\<close>

theorem computeWordDiffs_spells:
  assumes "\<forall>f\<in>set files. \<forall>h\<in>set (hunks f). \<forall>c\<in>set (changes h). wordDiff c = None"
  shows "\<forall>f\<in>set (computeWordDiffs files). \<forall>h\<in>set (hunks f). \<forall>c\<in>set (changes h).
           \<forall>ws. wordDiff c = Some ws \<longrightarrow>
             concat (map wvalue ws) = content c
             \<and> (type c = Some Delete \<or> type c = Some Add)
             \<and> (type c = Some Delete \<longrightarrow> (\<forall>w\<in>set ws. wtype w = Delete \<or> wtype w = Normal))
             \<and> (type c = Some Add \<longrightarrow> (\<forall>w\<in>set ws. wtype w = Add \<or> wtype w = Normal))"
proof (intro ballI allI impI)
  fix f h c ws
  assume f: "f \<in> set (computeWordDiffs files)" and h: "h \<in> set (hunks f)"
    and c: "c \<in> set (changes h)" and ws: "wordDiff c = Some ws"
  from f obtain f0 where f0: "f0 \<in> set files"
    and hf: "hunks f = map (\<lambda>hunk. hunk\<lparr>changes := computeHunkWordDiffs (changes hunk)\<rparr>) (hunks f0)"
    by (auto simp: computeWordDiffs_def)
  from h hf obtain h0 where h0: "h0 \<in> set (hunks f0)"
    and ch: "changes h = computeHunkWordDiffs (changes h0)"
    by auto
  from assms f0 h0 have "\<forall>c\<in>set (changes h0). wordDiff c = None" by blast
  from wordDiffsFrom_spells[OF this] c ch have "spellsContent c"
    by (simp add: computeHunkWordDiffs_from)
  with ws show "concat (map wvalue ws) = content c
             \<and> (type c = Some Delete \<or> type c = Some Add)
             \<and> (type c = Some Delete \<longrightarrow> (\<forall>w\<in>set ws. wtype w = Delete \<or> wtype w = Normal))
             \<and> (type c = Some Add \<longrightarrow> (\<forall>w\<in>set ws. wtype w = Add \<or> wtype w = Normal))"
    by (simp add: spellsContent_def)
qed

theorem computeWordDiffs_spells_witness:
  "computeWordDiffs
     [\<lparr>oldPath = ''f'', newPath = ''f'',
        hunks = [\<lparr>header = ''@@ -1 +1 @@'', oldStart = 1, oldLines = 1, newStart = 1, newLines = 1,
                  changes = [\<lparr>type = Some Delete, content = ''const x = 1;'', oldLineNumber = Some 1, newLineNumber = None, wordDiff = None\<rparr>,
                             \<lparr>type = Some Add, content = ''const x = 2;'', oldLineNumber = None, newLineNumber = Some 1, wordDiff = None\<rparr>],
                  isExpanded = True\<rparr>],
        status = Modified, fileIsExpanded = True\<rparr>]
   = [\<lparr>oldPath = ''f'', newPath = ''f'',
        hunks = [\<lparr>header = ''@@ -1 +1 @@'', oldStart = 1, oldLines = 1, newStart = 1, newLines = 1,
                  changes = [\<lparr>type = Some Delete, content = ''const x = 1;'', oldLineNumber = Some 1, newLineNumber = None, wordDiff = Some [\<lparr>wtype = Normal, wvalue = ''const''\<rparr>,
            \<lparr>wtype = Normal, wvalue = '' ''\<rparr>,
            \<lparr>wtype = Normal, wvalue = ''x''\<rparr>,
            \<lparr>wtype = Normal, wvalue = '' = ''\<rparr>,
            \<lparr>wtype = Delete, wvalue = ''1''\<rparr>,
            \<lparr>wtype = Normal, wvalue = '';''\<rparr>]\<rparr>,
                             \<lparr>type = Some Add, content = ''const x = 2;'', oldLineNumber = None, newLineNumber = Some 1, wordDiff = Some [\<lparr>wtype = Normal, wvalue = ''const''\<rparr>,
            \<lparr>wtype = Normal, wvalue = '' ''\<rparr>,
            \<lparr>wtype = Normal, wvalue = ''x''\<rparr>,
            \<lparr>wtype = Normal, wvalue = '' = ''\<rparr>,
            \<lparr>wtype = Add, wvalue = ''2''\<rparr>,
            \<lparr>wtype = Normal, wvalue = '';''\<rparr>]\<rparr>],
                  isExpanded = True\<rparr>],
        status = Modified, fileIsExpanded = True\<rparr>]
   \<and> concat [''const'', '' '', ''x'', '' = '', ''1'', '';''] = ''const x = 1;''
   \<and> concat [''const'', '' '', ''x'', '' = '', ''2'', '';''] = ''const x = 2;''"
proof -
  let ?files = "[\<lparr>oldPath = ''f'', newPath = ''f'',
        hunks = [\<lparr>header = ''@@ -1 +1 @@'', oldStart = 1, oldLines = 1, newStart = 1, newLines = 1,
                  changes = [\<lparr>type = Some Delete, content = ''const x = 1;'', oldLineNumber = Some 1, newLineNumber = None, wordDiff = None\<rparr>,
                             \<lparr>type = Some Add, content = ''const x = 2;'', oldLineNumber = None, newLineNumber = Some 1, wordDiff = None\<rparr>],
                  isExpanded = True\<rparr>],
        status = Modified, fileIsExpanded = True\<rparr>]"
  have e: "computeWordDiffs ?files
   = [\<lparr>oldPath = ''f'', newPath = ''f'',
        hunks = [\<lparr>header = ''@@ -1 +1 @@'', oldStart = 1, oldLines = 1, newStart = 1, newLines = 1,
                  changes = [\<lparr>type = Some Delete, content = ''const x = 1;'', oldLineNumber = Some 1, newLineNumber = None, wordDiff = Some [\<lparr>wtype = Normal, wvalue = ''const''\<rparr>,
            \<lparr>wtype = Normal, wvalue = '' ''\<rparr>,
            \<lparr>wtype = Normal, wvalue = ''x''\<rparr>,
            \<lparr>wtype = Normal, wvalue = '' = ''\<rparr>,
            \<lparr>wtype = Delete, wvalue = ''1''\<rparr>,
            \<lparr>wtype = Normal, wvalue = '';''\<rparr>]\<rparr>,
                             \<lparr>type = Some Add, content = ''const x = 2;'', oldLineNumber = None, newLineNumber = Some 1, wordDiff = Some [\<lparr>wtype = Normal, wvalue = ''const''\<rparr>,
            \<lparr>wtype = Normal, wvalue = '' ''\<rparr>,
            \<lparr>wtype = Normal, wvalue = ''x''\<rparr>,
            \<lparr>wtype = Normal, wvalue = '' = ''\<rparr>,
            \<lparr>wtype = Add, wvalue = ''2''\<rparr>,
            \<lparr>wtype = Normal, wvalue = '';''\<rparr>]\<rparr>],
                  isExpanded = True\<rparr>],
        status = Modified, fileIsExpanded = True\<rparr>]"
    by code_simp
  have n: "\<forall>f\<in>set ?files. \<forall>h\<in>set (hunks f). \<forall>c\<in>set (changes h). wordDiff c = None"
    by simp
  from computeWordDiffs_spells[OF n] e show ?thesis by simp
qed

lemma wordDiffsFrom_length [simp]: "length (wordDiffsFrom cs) = length cs"
  using arg_cong[OF wordDiffsFrom_frame[of cs], of length] by simp

lemma wordDiffsFrom_Nil [simp]: "wordDiffsFrom [] = []"
  by (simp add: wordDiffsFrom.simps)

lemma wordDiffsFrom_other:
  "type c \<noteq> Some Delete \<Longrightarrow> wordDiffsFrom (c # cs) = c # wordDiffsFrom cs"
  by (simp add: wordDiffsFrom.simps)

lemma wordDiffsFrom_others:
  "\<forall>x\<in>set xs. type x \<noteq> Some Delete \<Longrightarrow> wordDiffsFrom (xs @ post) = xs @ wordDiffsFrom post"
  by (induction xs) (simp_all add: wordDiffsFrom_other)

lemma wordDiffsFrom_delete:
  "type c = Some Delete \<Longrightarrow>
   wordDiffsFrom (c # cs)
   = replaceBlock (takeWhile (\<lambda>x. type x = Some Delete) (c # cs))
       (takeWhile (\<lambda>x. type x = Some Add) (dropWhile (\<lambda>x. type x = Some Delete) (c # cs)))
     @ wordDiffsFrom
         (dropWhile (\<lambda>x. type x = Some Add) (dropWhile (\<lambda>x. type x = Some Delete) (c # cs)))"
  by (subst wordDiffsFrom.simps) (simp only: simp_thms if_True)

text \<open>A run followed by something that does not continue it.\<close>

lemma takeWhile_run:
  assumes "\<forall>x\<in>set xs. P x" and "rest = [] \<or> \<not> P (hd rest)"
  shows "takeWhile P (xs @ rest) = xs" and "dropWhile P (xs @ rest) = rest"
proof -
  from assms(2) have t: "takeWhile P rest = []" and d: "dropWhile P rest = rest"
    by (cases rest; auto)+
  from assms(1) show "takeWhile P (xs @ rest) = xs" by (simp add: takeWhile_append2 t)
  from assms(1) show "dropWhile P (xs @ rest) = rest" by (simp add: dropWhile_append2 d)
qed

lemma wordDiffsFrom_block:
  assumes "ds \<noteq> []" and "\<forall>d\<in>set ds. type d = Some Delete" and "\<forall>a\<in>set as. type a = Some Add"
    and "post = [] \<or> (type (hd post) \<noteq> Some Add \<and> (as = [] \<longrightarrow> type (hd post) \<noteq> Some Delete))"
  shows "wordDiffsFrom (ds @ as @ post) = replaceBlock ds as @ wordDiffsFrom post"
proof -
  from assms(1) obtain d ds' where ds: "ds = d # ds'" by (cases ds) auto
  with assms(2) have td: "type d = Some Delete" by simp
  have hd1: "as @ post = [] \<or> \<not> type (hd (as @ post)) = Some Delete"
    using assms(3,4) by (cases as) auto
  have hd2: "post = [] \<or> \<not> type (hd post) = Some Add" using assms(4) by auto
  have t1: "takeWhile (\<lambda>x. type x = Some Delete) (ds @ as @ post) = ds"
    and d1: "dropWhile (\<lambda>x. type x = Some Delete) (ds @ as @ post) = as @ post"
    using takeWhile_run[OF assms(2) hd1] by simp_all
  have t2: "takeWhile (\<lambda>x. type x = Some Add) (as @ post) = as"
    and d2: "dropWhile (\<lambda>x. type x = Some Add) (as @ post) = post"
    using takeWhile_run[OF assms(3) hd2] by simp_all
  have "wordDiffsFrom (d # (ds' @ as @ post))
      = replaceBlock (takeWhile (\<lambda>x. type x = Some Delete) (d # (ds' @ as @ post)))
       (takeWhile (\<lambda>x. type x = Some Add)
          (dropWhile (\<lambda>x. type x = Some Delete) (d # (ds' @ as @ post))))
     @ wordDiffsFrom
         (dropWhile (\<lambda>x. type x = Some Add)
            (dropWhile (\<lambda>x. type x = Some Delete) (d # (ds' @ as @ post))))"
    by (rule wordDiffsFrom_delete[OF td])
  moreover have "d # (ds' @ as @ post) = ds @ as @ post" by (simp add: ds)
  ultimately show ?thesis by (simp only: t1 d1 t2 d2)
qed

text \<open>
  The pass can be cut between two changes unless the cut falls inside a block: after a
  delete when a delete or an add follows, or after an add when an add follows.
\<close>

lemma wordDiffsFrom_split:
  assumes "pre = [] \<or> rest = []
           \<or> (type (last pre) \<noteq> Some Delete \<and> type (last pre) \<noteq> Some Add)
           \<or> (type (hd rest) \<noteq> Some Delete \<and> type (hd rest) \<noteq> Some Add)
           \<or> (type (last pre) = Some Add \<and> type (hd rest) = Some Delete)"
  shows "wordDiffsFrom (pre @ rest) = wordDiffsFrom pre @ wordDiffsFrom rest"
  using assms
proof (induction pre rule: wordDiffsFrom.induct)
  case 1
  show ?case by simp
next
  case (2 c cs)
  show ?case
  proof (cases "rest = []")
    case True
    then show ?thesis by simp
  next
    case rest: False
    show ?thesis
    proof (cases "type c = Some Delete")
      case False
      show ?thesis
      proof (cases "cs = []")
        case True
        with False show ?thesis by (simp add: wordDiffsFrom_other)
      next
        case ne: False
        with 2(3) have "cs = [] \<or> rest = []
           \<or> (type (last cs) \<noteq> Some Delete \<and> type (last cs) \<noteq> Some Add)
           \<or> (type (hd rest) \<noteq> Some Delete \<and> type (hd rest) \<noteq> Some Add)
           \<or> (type (last cs) = Some Add \<and> type (hd rest) = Some Delete)"
          by simp
        from 2(2)[OF False this] False show ?thesis by (simp add: wordDiffsFrom_other)
      qed
    next
      case del: True
      let ?D = "\<lambda>x. type x = Some Delete" and ?A = "\<lambda>x. type x = Some Add"
      let ?pre = "c # cs"
      let ?ds = "takeWhile ?D ?pre" and ?r1 = "dropWhile ?D ?pre"
      let ?as = "takeWhile ?A ?r1" and ?r2 = "dropWhile ?A ?r1"
      have pre: "wordDiffsFrom ?pre = replaceBlock ?ds ?as @ wordDiffsFrom ?r2"
        by (rule wordDiffsFrom_delete[OF del])
      have all: "wordDiffsFrom (?pre @ rest)
          = replaceBlock (takeWhile ?D (?pre @ rest)) (takeWhile ?A (dropWhile ?D (?pre @ rest)))
            @ wordDiffsFrom (dropWhile ?A (dropWhile ?D (?pre @ rest)))"
        using wordDiffsFrom_delete[OF del, of "cs @ rest"] by simp
      from 2(3) rest have b: "(type (last ?pre) \<noteq> Some Delete \<and> type (last ?pre) \<noteq> Some Add)
           \<or> (type (hd rest) \<noteq> Some Delete \<and> type (hd rest) \<noteq> Some Add)
           \<or> (type (last ?pre) = Some Add \<and> type (hd rest) = Some Delete)"
        by simp
      show ?thesis
      proof (cases "?r1 = []")
        case True
        then have allD: "\<forall>x\<in>set ?pre. ?D x" unfolding dropWhile_eq_Nil_conv .
        have "last ?pre \<in> set ?pre" by (rule last_in_set) simp
        with allD have "?D (last ?pre)" by blast
        with b have hr: "rest = [] \<or> \<not> ?D (hd rest)" and ha: "\<not> ?A (hd rest)" by auto
        have t: "takeWhile ?D (?pre @ rest) = ?pre" "dropWhile ?D (?pre @ rest) = rest"
          by (rule takeWhile_run[OF allD hr])+
        have tp: "takeWhile ?D ?pre = ?pre" using allD unfolding takeWhile_eq_all_conv .
        from ha rest have ta: "takeWhile ?A rest = []" "dropWhile ?A rest = rest"
          by (cases rest; simp)+
        have "wordDiffsFrom (?pre @ rest) = replaceBlock ?pre [] @ wordDiffsFrom rest"
          by (simp only: all t ta)
        moreover have "wordDiffsFrom ?pre = replaceBlock ?pre []"
          by (simp only: pre tp True takeWhile.simps(1) dropWhile.simps(1) wordDiffsFrom_Nil append_Nil2)
        ultimately show ?thesis by (simp only:)
      next
        case r1: False
        then have nd: "\<not> ?D (hd ?r1)" by (rule hd_dropWhile)
        have e1: "?pre @ rest = ?ds @ (?r1 @ rest)"
          by (simp only: append_assoc [symmetric] takeWhile_dropWhile_id)
        have dsD: "\<forall>x\<in>set ?ds. ?D x" by (blast dest: set_takeWhileD)
        from r1 have "hd (?r1 @ rest) = hd ?r1" by (rule hd_append2)
        with nd have "\<not> ?D (hd (?r1 @ rest))" by (simp only: simp_thms)
        then have h1: "?r1 @ rest = [] \<or> \<not> ?D (hd (?r1 @ rest))" by (rule disjI2)
        have t: "takeWhile ?D (?pre @ rest) = ?ds" "dropWhile ?D (?pre @ rest) = ?r1 @ rest"
          by (subst e1, rule takeWhile_run[OF dsD h1])+
        from r1 have "last (?ds @ ?r1) = last ?r1" by (rule last_appendR)
        then have lastr1: "last ?r1 = last ?pre" by (simp only: takeWhile_dropWhile_id)
        show ?thesis
        proof (cases "?r2 = []")
          case True
          then have allA: "\<forall>x\<in>set ?r1. ?A x" unfolding dropWhile_eq_Nil_conv .
          from r1 have "last ?r1 \<in> set ?r1" by (rule last_in_set)
          with allA have "?A (last ?r1)" by blast
          with lastr1 b have hr: "rest = [] \<or> \<not> ?A (hd rest)" by auto
          have ta: "takeWhile ?A (?r1 @ rest) = ?r1" "dropWhile ?A (?r1 @ rest) = rest"
            by (rule takeWhile_run[OF allA hr])+
          have tp: "takeWhile ?A ?r1 = ?r1" using allA unfolding takeWhile_eq_all_conv .
          have "wordDiffsFrom (?pre @ rest) = replaceBlock ?ds ?r1 @ wordDiffsFrom rest"
            by (simp only: all t ta)
          moreover have "wordDiffsFrom ?pre = replaceBlock ?ds ?r1"
            by (simp only: pre tp True wordDiffsFrom_Nil append_Nil2)
          ultimately show ?thesis by (simp only:)
        next
          case r2: False
          then have na: "\<not> ?A (hd ?r2)" by (rule hd_dropWhile)
          have e2: "?r1 @ rest = ?as @ (?r2 @ rest)"
            by (simp only: append_assoc [symmetric] takeWhile_dropWhile_id)
          have asA: "\<forall>x\<in>set ?as. ?A x" by (blast dest: set_takeWhileD)
          from r2 have "hd (?r2 @ rest) = hd ?r2" by (rule hd_append2)
          with na have "\<not> ?A (hd (?r2 @ rest))" by (simp only: simp_thms)
          then have h2: "?r2 @ rest = [] \<or> \<not> ?A (hd (?r2 @ rest))" by (rule disjI2)
          have ta: "takeWhile ?A (?r1 @ rest) = ?as" "dropWhile ?A (?r1 @ rest) = ?r2 @ rest"
            by (subst e2, rule takeWhile_run[OF asA h2])+
          from r2 have "last (?as @ ?r2) = last ?r2" by (rule last_appendR)
          then have "last ?r2 = last ?r1" by (simp only: takeWhile_dropWhile_id)
          with lastr1 have "last ?r2 = last ?pre" by (simp only:)
          with b have "?r2 = [] \<or> rest = []
             \<or> (type (last ?r2) \<noteq> Some Delete \<and> type (last ?r2) \<noteq> Some Add)
             \<or> (type (hd rest) \<noteq> Some Delete \<and> type (hd rest) \<noteq> Some Add)
             \<or> (type (last ?r2) = Some Add \<and> type (hd rest) = Some Delete)"
            by simp
          from 2(1)[OF del this]
          have ih: "wordDiffsFrom (?r2 @ rest) = wordDiffsFrom ?r2 @ wordDiffsFrom rest" .
          have "wordDiffsFrom (?pre @ rest)
                = replaceBlock ?ds ?as @ wordDiffsFrom ?r2 @ wordDiffsFrom rest"
            by (simp only: all t ta ih)
          moreover have "wordDiffsFrom ?pre @ wordDiffsFrom rest
                = replaceBlock ?ds ?as @ wordDiffsFrom ?r2 @ wordDiffsFrom rest"
            by (simp only: pre append_assoc)
          ultimately show ?thesis by (simp only:)
        qed
      qed
    qed
  qed
qed

lemma replaceBlock_nth_delete:
  assumes "k < length ds"
  shows "replaceBlock ds as ! k
         = (if length ds \<le> 5 \<and> length as \<le> 5 \<and> k < min (length ds) (length as)
            then (ds ! k)\<lparr>wordDiff :=
                   Some (computeLineDiff (content (ds ! k)) (content (as ! k)) Delete)\<rparr>
            else ds ! k)"
  using assms by (auto simp: replaceBlock_def nth_append pairDeletes_nth)

lemma replaceBlock_nth_add:
  assumes "k < length as" and "ds \<noteq> []"
  shows "replaceBlock ds as ! (length ds + k)
         = (if length ds \<le> 5 \<and> length as \<le> 5 \<and> k < min (length ds) (length as)
            then (as ! k)\<lparr>wordDiff :=
                   Some (computeLineDiff (content (ds ! k)) (content (as ! k)) Add)\<rparr>
            else as ! k)"
  using assms by (auto simp: replaceBlock_def nth_append pairAdds_nth)

lemma wordDiffsFrom_nth_other:
  assumes "k < length chs" and "type (chs ! k) \<noteq> Some Delete" and "type (chs ! k) \<noteq> Some Add"
  shows "wordDiffsFrom chs ! k = chs ! k"
proof -
  let ?p = "take k chs" and ?q = "drop (Suc k) chs"
  from assms(1) have id: "chs = ?p @ chs ! k # ?q" by (rule id_take_nth_drop)
  have "wordDiffsFrom (?p @ chs ! k # ?q) = wordDiffsFrom ?p @ wordDiffsFrom (chs ! k # ?q)"
    by (rule wordDiffsFrom_split) (simp add: assms(2,3))
  also have "\<dots> = wordDiffsFrom ?p @ chs ! k # wordDiffsFrom ?q"
    by (simp only: wordDiffsFrom_other[OF assms(2)])
  finally have "wordDiffsFrom chs = wordDiffsFrom ?p @ chs ! k # wordDiffsFrom ?q"
    by (simp only: id [symmetric])
  moreover from assms(1) have "length (wordDiffsFrom ?p) = k" by simp
  ultimately show ?thesis by (metis nth_append_length)
qed

lemma wordDiffsFrom_nth_adds:
  assumes "chs = p @ xs @ q" and "\<forall>a\<in>set xs. type a = Some Add"
    and "p = [] \<or> (type (last p) \<noteq> Some Delete \<and> type (last p) \<noteq> Some Add)"
    and "k < length xs"
  shows "wordDiffsFrom chs ! (length p + k) = xs ! k"
proof -
  have "wordDiffsFrom (p @ (xs @ q)) = wordDiffsFrom p @ wordDiffsFrom (xs @ q)"
    by (rule wordDiffsFrom_split) (use assms(3) in blast)
  moreover from assms(2) have "wordDiffsFrom (xs @ q) = xs @ wordDiffsFrom q"
    by (intro wordDiffsFrom_others) simp
  ultimately have "wordDiffsFrom chs = wordDiffsFrom p @ xs @ wordDiffsFrom q"
    by (simp only: assms(1))
  with assms(4) show ?thesis by (simp add: nth_append)
qed

lemma wordDiffsFrom_in_block:
  assumes "chs = pre @ ds @ as @ post"
    and "ds \<noteq> []" and "\<forall>d\<in>set ds. type d = Some Delete" and "\<forall>a\<in>set as. type a = Some Add"
    and "pre = [] \<or> type (last pre) \<noteq> Some Delete"
    and "post = [] \<or> (type (hd post) \<noteq> Some Add \<and> (as = [] \<longrightarrow> type (hd post) \<noteq> Some Delete))"
  shows "wordDiffsFrom chs = wordDiffsFrom pre @ replaceBlock ds as @ wordDiffsFrom post"
proof -
  from assms(2,3) have hd: "type (hd (ds @ as @ post)) = Some Delete" by (cases ds) auto
  have "wordDiffsFrom (pre @ (ds @ as @ post)) = wordDiffsFrom pre @ wordDiffsFrom (ds @ as @ post)"
    by (rule wordDiffsFrom_split) (use assms(5) hd in auto)
  also have "wordDiffsFrom (ds @ as @ post) = replaceBlock ds as @ wordDiffsFrom post"
    by (rule wordDiffsFrom_block[OF assms(2,3,4,6)])
  finally show ?thesis by (simp only: assms(1))
qed

text \<open>
  C5. Let the changes of a hunk be \<open>pre @ ds @ as @ post\<close>, where \<open>ds\<close> is a maximal
  non-empty run of deletes and \<open>as\<close> the maximal run of adds right after it (a
  replacement block). Then in the result of \<open>computeHunkWordDiffs\<close>
  \<^item> the \<open>k\<close>-th delete of the block carries the word diff against the \<open>k\<close>-th add, and
    the \<open>k\<close>-th add the one against the \<open>k\<close>-th delete, exactly when both runs have at
    most 5 changes and \<open>k\<close> is below the length of both; every other change of the
    block is the change of the input;
  \<^item> a change that is neither a delete nor an add, and an add of a run that does not
    follow a delete, is the change of the input;
  \<^item> the result has as many changes as the input, in the same order, and differs from
    it in the \<open>wordDiff\<close> fields at most.
  \<open>computeWordDiffs\<close> does this to the changes of every hunk of every file.
\<close>

theorem computeHunkWordDiffs_blocks:
  assumes "chs = pre @ ds @ as @ post"
    and "ds \<noteq> []" and "\<forall>d\<in>set ds. type d = Some Delete" and "\<forall>a\<in>set as. type a = Some Add"
    and "pre = [] \<or> type (last pre) \<noteq> Some Delete"
    and "post = [] \<or> (type (hd post) \<noteq> Some Add \<and> (as = [] \<longrightarrow> type (hd post) \<noteq> Some Delete))"
  shows "(\<forall>k<length ds. computeHunkWordDiffs chs ! (length pre + k)
            = (if length ds \<le> 5 \<and> length as \<le> 5 \<and> k < min (length ds) (length as)
               then (ds ! k)\<lparr>wordDiff :=
                      Some (computeLineDiff (content (ds ! k)) (content (as ! k)) Delete)\<rparr>
               else ds ! k))
       \<and> (\<forall>k<length as. computeHunkWordDiffs chs ! (length pre + length ds + k)
            = (if length ds \<le> 5 \<and> length as \<le> 5 \<and> k < min (length ds) (length as)
               then (as ! k)\<lparr>wordDiff :=
                      Some (computeLineDiff (content (ds ! k)) (content (as ! k)) Add)\<rparr>
               else as ! k))
       \<and> (\<forall>k<length chs. type (chs ! k) \<noteq> Some Delete \<and> type (chs ! k) \<noteq> Some Add \<longrightarrow>
            computeHunkWordDiffs chs ! k = chs ! k)
       \<and> (\<forall>p xs q. chs = p @ xs @ q \<and> (\<forall>a\<in>set xs. type a = Some Add)
              \<and> (p = [] \<or> (type (last p) \<noteq> Some Delete \<and> type (last p) \<noteq> Some Add)) \<longrightarrow>
            (\<forall>k<length xs. computeHunkWordDiffs chs ! (length p + k) = xs ! k))
       \<and> length (computeHunkWordDiffs chs) = length chs
       \<and> map (\<lambda>c. c\<lparr>wordDiff := None\<rparr>) (computeHunkWordDiffs chs)
           = map (\<lambda>c. c\<lparr>wordDiff := None\<rparr>) chs
       \<and> (\<forall>files. length (computeWordDiffs files) = length files
            \<and> (\<forall>i<length files.
                  map changes (hunks (computeWordDiffs files ! i))
                  = map (\<lambda>h. computeHunkWordDiffs (changes h)) (hunks (files ! i))))"
proof -
  have out: "computeHunkWordDiffs chs = wordDiffsFrom pre @ replaceBlock ds as @ wordDiffsFrom post"
    unfolding computeHunkWordDiffs_from by (rule wordDiffsFrom_in_block[OF assms])
  have d: "\<forall>k<length ds. computeHunkWordDiffs chs ! (length pre + k)
            = (if length ds \<le> 5 \<and> length as \<le> 5 \<and> k < min (length ds) (length as)
               then (ds ! k)\<lparr>wordDiff :=
                      Some (computeLineDiff (content (ds ! k)) (content (as ! k)) Delete)\<rparr>
               else ds ! k)"
  proof (intro allI impI)
    fix k assume k: "k < length ds"
    then have "computeHunkWordDiffs chs ! (length pre + k) = replaceBlock ds as ! k"
      unfolding out by (simp add: nth_append)
    then show "computeHunkWordDiffs chs ! (length pre + k)
            = (if length ds \<le> 5 \<and> length as \<le> 5 \<and> k < min (length ds) (length as)
               then (ds ! k)\<lparr>wordDiff :=
                      Some (computeLineDiff (content (ds ! k)) (content (as ! k)) Delete)\<rparr>
               else ds ! k)"
      by (simp only: replaceBlock_nth_delete[OF k])
  qed
  have a: "\<forall>k<length as. computeHunkWordDiffs chs ! (length pre + length ds + k)
            = (if length ds \<le> 5 \<and> length as \<le> 5 \<and> k < min (length ds) (length as)
               then (as ! k)\<lparr>wordDiff :=
                      Some (computeLineDiff (content (ds ! k)) (content (as ! k)) Add)\<rparr>
               else as ! k)"
  proof (intro allI impI)
    fix k assume k: "k < length as"
    then have "computeHunkWordDiffs chs ! (length pre + length ds + k)
               = replaceBlock ds as ! (length ds + k)"
      unfolding out by (simp add: nth_append add.assoc)
    then show "computeHunkWordDiffs chs ! (length pre + length ds + k)
            = (if length ds \<le> 5 \<and> length as \<le> 5 \<and> k < min (length ds) (length as)
               then (as ! k)\<lparr>wordDiff :=
                      Some (computeLineDiff (content (ds ! k)) (content (as ! k)) Add)\<rparr>
               else as ! k)"
      by (simp only: replaceBlock_nth_add[OF k assms(2)])
  qed
  have o: "\<forall>k<length chs. type (chs ! k) \<noteq> Some Delete \<and> type (chs ! k) \<noteq> Some Add \<longrightarrow>
            computeHunkWordDiffs chs ! k = chs ! k"
    unfolding computeHunkWordDiffs_from using wordDiffsFrom_nth_other by blast
  have l: "\<forall>p xs q. chs = p @ xs @ q \<and> (\<forall>a\<in>set xs. type a = Some Add)
              \<and> (p = [] \<or> (type (last p) \<noteq> Some Delete \<and> type (last p) \<noteq> Some Add)) \<longrightarrow>
            (\<forall>k<length xs. computeHunkWordDiffs chs ! (length p + k) = xs ! k)"
    unfolding computeHunkWordDiffs_from using wordDiffsFrom_nth_adds by blast
  have f: "length (computeHunkWordDiffs chs) = length chs
       \<and> map (\<lambda>c. c\<lparr>wordDiff := None\<rparr>) (computeHunkWordDiffs chs)
           = map (\<lambda>c. c\<lparr>wordDiff := None\<rparr>) chs"
    unfolding computeHunkWordDiffs_from by (simp add: wordDiffsFrom_frame)
  have w: "\<forall>files. length (computeWordDiffs files) = length files
            \<and> (\<forall>i<length files.
                  map changes (hunks (computeWordDiffs files ! i))
                  = map (\<lambda>h. computeHunkWordDiffs (changes h)) (hunks (files ! i)))"
    by (simp add: computeWordDiffs_def comp_def)
  from d a o l f w show ?thesis by (intro conjI) blast+
qed

theorem computeHunkWordDiffs_blocks_witness:
  "computeHunkWordDiffs
     [\<lparr>type = Some Normal, content = ''x'', oldLineNumber = None, newLineNumber = None, wordDiff = None\<rparr>,
      \<lparr>type = Some Delete, content = ''a b'', oldLineNumber = None, newLineNumber = None, wordDiff = None\<rparr>,
      \<lparr>type = Some Delete, content = ''q'', oldLineNumber = None, newLineNumber = None, wordDiff = None\<rparr>,
      \<lparr>type = Some Add, content = ''a c'', oldLineNumber = None, newLineNumber = None, wordDiff = None\<rparr>,
      \<lparr>type = Some Normal, content = ''y'', oldLineNumber = None, newLineNumber = None, wordDiff = None\<rparr>,
      \<lparr>type = Some Add, content = ''z'', oldLineNumber = None, newLineNumber = None, wordDiff = None\<rparr>]
   = [\<lparr>type = Some Normal, content = ''x'', oldLineNumber = None, newLineNumber = None, wordDiff = None\<rparr>,
      \<lparr>type = Some Delete, content = ''a b'', oldLineNumber = None, newLineNumber = None, wordDiff = Some [\<lparr>wtype = Normal, wvalue = ''a''\<rparr>, \<lparr>wtype = Normal, wvalue = '' ''\<rparr>, \<lparr>wtype = Delete, wvalue = ''b''\<rparr>]\<rparr>,
      \<lparr>type = Some Delete, content = ''q'', oldLineNumber = None, newLineNumber = None, wordDiff = None\<rparr>,
      \<lparr>type = Some Add, content = ''a c'', oldLineNumber = None, newLineNumber = None, wordDiff = Some [\<lparr>wtype = Normal, wvalue = ''a''\<rparr>, \<lparr>wtype = Normal, wvalue = '' ''\<rparr>, \<lparr>wtype = Add, wvalue = ''c''\<rparr>]\<rparr>,
      \<lparr>type = Some Normal, content = ''y'', oldLineNumber = None, newLineNumber = None, wordDiff = None\<rparr>,
      \<lparr>type = Some Add, content = ''z'', oldLineNumber = None, newLineNumber = None, wordDiff = None\<rparr>]
   \<and> computeHunkWordDiffs
     [\<lparr>type = Some Delete, content = ''l1'', oldLineNumber = None, newLineNumber = None, wordDiff = None\<rparr>,
      \<lparr>type = Some Delete, content = ''l2'', oldLineNumber = None, newLineNumber = None, wordDiff = None\<rparr>,
      \<lparr>type = Some Delete, content = ''l3'', oldLineNumber = None, newLineNumber = None, wordDiff = None\<rparr>,
      \<lparr>type = Some Delete, content = ''l4'', oldLineNumber = None, newLineNumber = None, wordDiff = None\<rparr>,
      \<lparr>type = Some Delete, content = ''l5'', oldLineNumber = None, newLineNumber = None, wordDiff = None\<rparr>,
      \<lparr>type = Some Delete, content = ''l6'', oldLineNumber = None, newLineNumber = None, wordDiff = None\<rparr>,
      \<lparr>type = Some Add, content = ''l1'', oldLineNumber = None, newLineNumber = None, wordDiff = None\<rparr>]
   = [\<lparr>type = Some Delete, content = ''l1'', oldLineNumber = None, newLineNumber = None, wordDiff = None\<rparr>,
      \<lparr>type = Some Delete, content = ''l2'', oldLineNumber = None, newLineNumber = None, wordDiff = None\<rparr>,
      \<lparr>type = Some Delete, content = ''l3'', oldLineNumber = None, newLineNumber = None, wordDiff = None\<rparr>,
      \<lparr>type = Some Delete, content = ''l4'', oldLineNumber = None, newLineNumber = None, wordDiff = None\<rparr>,
      \<lparr>type = Some Delete, content = ''l5'', oldLineNumber = None, newLineNumber = None, wordDiff = None\<rparr>,
      \<lparr>type = Some Delete, content = ''l6'', oldLineNumber = None, newLineNumber = None, wordDiff = None\<rparr>,
      \<lparr>type = Some Add, content = ''l1'', oldLineNumber = None, newLineNumber = None, wordDiff = None\<rparr>]"
proof -
  let ?pre = "[\<lparr>type = Some Normal, content = ''x'', oldLineNumber = None, newLineNumber = None, wordDiff = None\<rparr>]"
  let ?ds = "[\<lparr>type = Some Delete, content = ''a b'', oldLineNumber = None, newLineNumber = None, wordDiff = None\<rparr>,
      \<lparr>type = Some Delete, content = ''q'', oldLineNumber = None, newLineNumber = None, wordDiff = None\<rparr>]"
  let ?as = "[\<lparr>type = Some Add, content = ''a c'', oldLineNumber = None, newLineNumber = None, wordDiff = None\<rparr>]"
  let ?post = "[\<lparr>type = Some Normal, content = ''y'', oldLineNumber = None, newLineNumber = None, wordDiff = None\<rparr>,
      \<lparr>type = Some Add, content = ''z'', oldLineNumber = None, newLineNumber = None, wordDiff = None\<rparr>]"
  let ?six = "[\<lparr>type = Some Delete, content = ''l1'', oldLineNumber = None, newLineNumber = None, wordDiff = None\<rparr>,
      \<lparr>type = Some Delete, content = ''l2'', oldLineNumber = None, newLineNumber = None, wordDiff = None\<rparr>,
      \<lparr>type = Some Delete, content = ''l3'', oldLineNumber = None, newLineNumber = None, wordDiff = None\<rparr>,
      \<lparr>type = Some Delete, content = ''l4'', oldLineNumber = None, newLineNumber = None, wordDiff = None\<rparr>,
      \<lparr>type = Some Delete, content = ''l5'', oldLineNumber = None, newLineNumber = None, wordDiff = None\<rparr>,
      \<lparr>type = Some Delete, content = ''l6'', oldLineNumber = None, newLineNumber = None, wordDiff = None\<rparr>]"
  let ?one = "[\<lparr>type = Some Add, content = ''l1'', oldLineNumber = None, newLineNumber = None, wordDiff = None\<rparr>]"
  have e1: "computeHunkWordDiffs (?pre @ ?ds @ ?as @ ?post)
     = [\<lparr>type = Some Normal, content = ''x'', oldLineNumber = None, newLineNumber = None, wordDiff = None\<rparr>,
      \<lparr>type = Some Delete, content = ''a b'', oldLineNumber = None, newLineNumber = None, wordDiff = Some [\<lparr>wtype = Normal, wvalue = ''a''\<rparr>, \<lparr>wtype = Normal, wvalue = '' ''\<rparr>, \<lparr>wtype = Delete, wvalue = ''b''\<rparr>]\<rparr>,
      \<lparr>type = Some Delete, content = ''q'', oldLineNumber = None, newLineNumber = None, wordDiff = None\<rparr>,
      \<lparr>type = Some Add, content = ''a c'', oldLineNumber = None, newLineNumber = None, wordDiff = Some [\<lparr>wtype = Normal, wvalue = ''a''\<rparr>, \<lparr>wtype = Normal, wvalue = '' ''\<rparr>, \<lparr>wtype = Add, wvalue = ''c''\<rparr>]\<rparr>,
      \<lparr>type = Some Normal, content = ''y'', oldLineNumber = None, newLineNumber = None, wordDiff = None\<rparr>,
      \<lparr>type = Some Add, content = ''z'', oldLineNumber = None, newLineNumber = None, wordDiff = None\<rparr>]"
    by code_simp
  have e2: "computeHunkWordDiffs (?six @ ?one @ []) = ?six @ ?one"
    by code_simp
  have b1: "computeHunkWordDiffs (?pre @ ?ds @ ?as @ ?post) ! (length ?pre + 0)
            = (?ds ! 0)\<lparr>wordDiff := Some (computeLineDiff (content (?ds ! 0)) (content (?as ! 0)) Delete)\<rparr>"
    using computeHunkWordDiffs_blocks[of "?pre @ ?ds @ ?as @ ?post" ?pre ?ds ?as ?post] by simp
  have b2: "computeHunkWordDiffs ([] @ ?six @ ?one @ []) ! (length ([] :: DiffChange list) + 0) = ?six ! 0"
    using computeHunkWordDiffs_blocks[of "[] @ ?six @ ?one @ []" "[]" ?six ?one "[]"] by simp
  from e1 e2 b1 b2 show ?thesis by simp
qed

end
